theory Spec2Isabelle
  imports Complex_Main "HOL-Library.Log_Nat"
begin

section \<open>Numbers\<close>

text \<open>
  A JavaScript number is an IEEE 754 binary64 value.  A finite value is kept as the
  rational it denotes; the two infinities and NaN are separate constructors.  The two
  zeros are identified (they are equal under \<open>\<le>\<close> and \<open>===\<close>, which is all the
  code below observes).  Every arithmetic operation computes the exact rational result
  and rounds it to the nearest binary64 value, ties to even: 53 significant bits,
  exponent of the last place at least \<open>-1074\<close>, overflow to infinity from \<open>2^1024\<close> on.
\<close>

datatype number = Finite rat | PosInfinity | NegInfinity | NaN

definition ilog2 :: "rat \<Rightarrow> int" where
  "ilog2 x = (let (p, q) = quotient_of x; k = bitlen p - bitlen q
              in if 2 powi k \<le> x then k else k - 1)"

definition round_half_even :: "rat \<Rightarrow> int" where
  "round_half_even r = (let f = \<lfloor>r\<rfloor>; d = r - of_int f in
      if d < 1 / 2 then f else if 1 / 2 < d then f + 1 else if even f then f else f + 1)"

definition round_double :: "rat \<Rightarrow> number" where
  "round_double x = (if x = 0 then Finite 0 else
     let e = max (ilog2 \<bar>x\<bar>) (- 1022) - 52;
         y = of_int (round_half_even (x / 2 powi e)) * 2 powi e
     in if 2 powi 1024 \<le> \<bar>y\<bar> then (if 0 < x then PosInfinity else NegInfinity) else Finite y)"


text \<open>
  \<open>Math.sqrt\<close> and \<open>Math.pow(x, 2)\<close> are taken correctly rounded.  \<open>isqrt\<close> is the
  integer square root, \<open>round_sqrt v\<close> the binary64 value nearest to the square root of
  a non-negative rational \<open>v\<close>.
\<close>

fun isqrt :: "nat \<Rightarrow> nat" where
  "isqrt n = (if n < 2 then n else
     let r = 2 * isqrt (n div 4) in if (r + 1) * (r + 1) \<le> n then r + 1 else r)"

declare isqrt.simps [simp del]

definition round_sqrt :: "rat \<Rightarrow> number" where
  "round_sqrt v = (if v = 0 then Finite 0 else
     let e = max (ilog2 v div 2) (- 1022) - 52;
         w = v / 2 powi (2 * e);
         f = int (isqrt (nat \<lfloor>w\<rfloor>));
         h = (of_int f + 1 / 2) * (of_int f + 1 / 2);
         m = (if w < h then f else if h < w then f + 1 else if even f then f else f + 1)
     in Finite (of_int m * 2 powi e))"

text \<open>
  Addition, negation, subtraction, division by an array length (a positive integer),
  squaring, square root and the comparison \<open>\<le>\<close>, with the IEEE rules for infinities
  and NaN.  \<open>Math.min(...xs)\<close> and \<open>Math.max(...xs)\<close> return NaN as soon as one
  argument is NaN and otherwise scan from \<open>+\<infinity>\<close> resp. \<open>-\<infinity>\<close>.
\<close>

fun num_add :: "number \<Rightarrow> number \<Rightarrow> number" where
  "num_add NaN _ = NaN"
| "num_add _ NaN = NaN"
| "num_add (Finite a) (Finite b) = round_double (a + b)"
| "num_add PosInfinity NegInfinity = NaN"
| "num_add NegInfinity PosInfinity = NaN"
| "num_add PosInfinity _ = PosInfinity"
| "num_add _ PosInfinity = PosInfinity"
| "num_add NegInfinity _ = NegInfinity"
| "num_add _ NegInfinity = NegInfinity"

fun num_neg :: "number \<Rightarrow> number" where
  "num_neg (Finite a) = Finite (- a)"
| "num_neg PosInfinity = NegInfinity"
| "num_neg NegInfinity = PosInfinity"
| "num_neg NaN = NaN"

definition num_sub :: "number \<Rightarrow> number \<Rightarrow> number" where
  "num_sub a b = num_add a (num_neg b)"

fun num_div_len :: "number \<Rightarrow> nat \<Rightarrow> number" where
  "num_div_len (Finite a) n = round_double (a / of_nat n)"
| "num_div_len x n = x"

fun Math_pow2 :: "number \<Rightarrow> number" where
  "Math_pow2 (Finite a) = round_double (a * a)"
| "Math_pow2 NaN = NaN"
| "Math_pow2 _ = PosInfinity"

fun Math_sqrt :: "number \<Rightarrow> number" where
  "Math_sqrt (Finite v) = (if v < 0 then NaN else round_sqrt v)"
| "Math_sqrt PosInfinity = PosInfinity"
| "Math_sqrt _ = NaN"

fun num_le :: "number \<Rightarrow> number \<Rightarrow> bool" where
  "num_le NaN _ = False"
| "num_le _ NaN = False"
| "num_le NegInfinity _ = True"
| "num_le _ PosInfinity = True"
| "num_le (Finite a) (Finite b) = (a \<le> b)"
| "num_le _ _ = False"

definition num_lt :: "number \<Rightarrow> number \<Rightarrow> bool" where
  "num_lt a b = (num_le a b \<and> a \<noteq> b)"

definition Math_min :: "number list \<Rightarrow> number" where
  "Math_min xs = (if NaN \<in> set xs then NaN
     else foldl (\<lambda>lowest x. if num_lt x lowest then x else lowest) PosInfinity xs)"

definition Math_max :: "number list \<Rightarrow> number" where
  "Math_max xs = (if NaN \<in> set xs then NaN
     else foldl (\<lambda>highest x. if num_lt highest x then x else highest) NegInfinity xs)"

section \<open>Signal statistics (\<open>calculateStats\<close>, dataProcessor.ts)\<close>

record Stats =
  min_val :: number
  max_val :: number
  mean :: number
  stdDev :: number

definition calculateStats :: "number list \<Rightarrow> Stats" where
  "calculateStats data =
     (if length data = 0
      then \<lparr>min_val = Finite 0, max_val = Finite 0, mean = Finite 0, stdDev = Finite 0\<rparr>
      else
        let mn = Math_min data;
            mx = Math_max data;
            sum = foldl (\<lambda>a b. num_add a b) (Finite 0) data;
            mean = num_div_len sum (length data);
            variance = num_div_len
              (foldl (\<lambda>a b. num_add a (Math_pow2 (num_sub b mean))) (Finite 0) data)
              (length data)
        in \<lparr>min_val = mn, max_val = mx, mean = mean, stdDev = Math_sqrt variance\<rparr>)"


section \<open>Input values\<close>

text \<open>
  The value handed to the normalizer is what \<open>JSON.parse\<close> returns.  An object is the
  list of its own properties in \<open>Object.keys\<close> order; reading a property that is not
  there yields \<open>undefined\<close>, which is \<open>None\<close> in \<open>json option\<close>.
  \<open>get_prop\<close> is only ever applied to the names \<open>time\<close>, \<open>tout\<close>, \<open>t\<close> and \<open>data\<close>,
  which no array, string, number or boolean has; reading a property of \<open>null\<close> throws
  and is handled where it happens.
\<close>

datatype json = JNull | JBool bool | JNum number | JStr string
  | JArr "json list" | JObj "(string \<times> json) list"

fun typeof_object :: "json \<Rightarrow> bool" where
  "typeof_object JNull = True"
| "typeof_object (JArr _) = True"
| "typeof_object (JObj _) = True"
| "typeof_object _ = False"

fun Array_isArray :: "json option \<Rightarrow> bool" where
  "Array_isArray (Some (JArr _)) = True"
| "Array_isArray _ = False"

fun typeof_number :: "json \<Rightarrow> bool" where
  "typeof_number (JNum _) = True"
| "typeof_number _ = False"

fun array_items :: "json option \<Rightarrow> json list" where
  "array_items (Some (JArr xs)) = xs"
| "array_items _ = []"

definition isNumericArray :: "json option \<Rightarrow> bool" where
  "isNumericArray arr =
     (if \<not> Array_isArray arr \<or> length (array_items arr) = 0 then False
      else list_all typeof_number (array_items arr))"

definition numbers_of :: "json option \<Rightarrow> number list" where
  "numbers_of arr = concat (map (\<lambda>item. case item of JNum n \<Rightarrow> [n] | _ \<Rightarrow> []) (array_items arr))"

fun truthy :: "json option \<Rightarrow> bool" where
  "truthy None = False"
| "truthy (Some JNull) = False"
| "truthy (Some (JBool b)) = b"
| "truthy (Some (JNum n)) = (n \<noteq> Finite 0 \<and> n \<noteq> NaN)"
| "truthy (Some (JStr s)) = (s \<noteq> [])"
| "truthy (Some (JArr _)) = True"
| "truthy (Some (JObj _)) = True"

fun get_prop :: "json \<Rightarrow> string \<Rightarrow> json option" where
  "get_prop (JObj kvs) key = map_of kvs key"
| "get_prop _ key = None"

definition digit_char :: "nat \<Rightarrow> char" where
  "digit_char n = ''0123456789'' ! n"

fun toString :: "nat \<Rightarrow> string" where
  "toString n = (if n < 10 then [digit_char n] else toString (n div 10) @ [digit_char (n mod 10)])"

declare toString.simps [simp del]

fun Object_keys :: "json \<Rightarrow> (string \<times> json) list" where
  "Object_keys (JObj kvs) = kvs"
| "Object_keys (JArr xs) = zip (map toString [0..<length xs]) xs"
| "Object_keys _ = []"

fun join :: "string list \<Rightarrow> string \<Rightarrow> string" where
  "join [] sep = []"
| "join [x] sep = x"
| "join (x # y # ys) sep = x @ sep @ join (y # ys) sep"

section \<open>Signals and buses (types.ts)\<close>

record SignalData =
  sig_id :: string
  sig_name :: string
  sig_path :: "string list"
  data :: "number list"
  time :: "number list option"
  stats :: "Stats option"

datatype BusNode = BusNode (bus_name: string) (bus_path: "string list")
  (signals: "SignalData list") (subBuses: "BusNode list")

type_synonym flat = "string \<rightharpoonup> SignalData"

section \<open>Tree normalizer (\<open>parseMatlabJson\<close>, dataProcessor.ts)\<close>

text \<open>
  \<open>set_own obj key v\<close> is the assignment \<open>obj[key] = v\<close> on a plain object, seen as the
  map of its own properties.  The key \<open>__proto__\<close> is the one exception of the language:
  the assignment then reaches the accessor inherited from \<open>Object.prototype\<close> and no
  own property is created.

  \<open>traverse\<close> is the inner function of \<open>parseMatlabJson\<close>; the captured variables
  \<open>commonTimeVector\<close> (read only) and \<open>flatSignals\<close> (written) are passed explicitly.
  \<open>keysLoop\<close> is the \<open>for (const key of Object.keys(node))\<close> loop and \<open>forEach\<close> the
  \<open>value.forEach\<close> of case 4; both carry the bus under construction.
\<close>

definition set_own :: "(string \<rightharpoonup> 'v) \<Rightarrow> string \<Rightarrow> 'v \<Rightarrow> (string \<rightharpoonup> 'v)" where
  "set_own obj key v = (if key = ''__proto__'' then obj else obj(key \<mapsto> v))"

definition push_signal :: "BusNode \<Rightarrow> SignalData \<Rightarrow> BusNode" where
  "push_signal bus s = BusNode (bus_name bus) (bus_path bus) (signals bus @ [s]) (subBuses bus)"

definition push_subBus :: "BusNode \<Rightarrow> BusNode \<Rightarrow> BusNode" where
  "push_subBus bus sub = BusNode (bus_name bus) (bus_path bus) (signals bus) (subBuses bus @ [sub])"

definition attach :: "BusNode \<Rightarrow> BusNode \<Rightarrow> BusNode" where
  "attach currentBus subBus =
     (if length (signals subBus) > 0 \<or> length (subBuses subBus) > 0
      then push_subBus currentBus subBus else currentBus)"

text \<open>Sizes that decrease along the recursion of the traversal.\<close>

lemma size_zip_snd: "size_list (\<lambda>kv. size (snd kv)) (zip ks xs) \<le> size_list size xs"
proof (induction xs arbitrary: ks)
  case Nil
  then show ?case by simp
next
  case (Cons a xs)
  show ?case
  proof (cases ks)
    case Nil
    then show ?thesis by simp
  next
    case (Cons k ks')
    then show ?thesis using Cons.IH[of ks'] by simp
  qed
qed

lemma size_Object_keys:
  assumes "typeof_object node" and "node \<noteq> JNull"
  shows "size_list (\<lambda>kv. size (snd kv)) (Object_keys node) < size node"
proof (cases node)
  case (JArr xs)
  then show ?thesis using size_zip_snd[of "map toString [0..<length xs]" xs] by simp
next
  case (JObj kvs)
  have "size_list (\<lambda>kv. size (snd kv)) kvs \<le> size_list (size_prod (\<lambda>_. 0) size) kvs"
    by (induction kvs) auto
  then show ?thesis using JObj by simp
qed (use assms in simp_all)

lemma size_array_items: "size_list size (array_items (Some v)) < Suc (size v + n)"
  by (cases v) simp_all

function traverse :: "number list option \<Rightarrow> json \<Rightarrow> string list \<Rightarrow> string \<Rightarrow> flat \<Rightarrow> BusNode \<times> flat"
  and keysLoop :: "number list option \<Rightarrow> (string \<times> json) list \<Rightarrow> string list \<Rightarrow> BusNode \<Rightarrow> flat \<Rightarrow> BusNode \<times> flat"
  and forEach :: "number list option \<Rightarrow> string \<Rightarrow> string list \<Rightarrow> json list \<Rightarrow> nat \<Rightarrow> BusNode \<Rightarrow> flat \<Rightarrow> BusNode \<times> flat"
where
  "traverse ctv node path busName flatSignals =
     (let currentBus = BusNode busName path [] [] in
      if \<not> typeof_object node \<or> node = JNull then (currentBus, flatSignals)
      else keysLoop ctv (Object_keys node) path currentBus flatSignals)"
| "keysLoop ctv [] path currentBus flatSignals = (currentBus, flatSignals)"
| "keysLoop ctv ((key, value) # rest) path currentBus flatSignals =
     (let newPath = path @ [key];
          id = join newPath ''.''
      in
      if isNumericArray (Some value) then
        if (key = ''time'' \<or> key = ''tout'') \<and> length path = 0
        then keysLoop ctv rest path currentBus flatSignals
        else
          let signal = \<lparr>sig_id = id, sig_name = key, sig_path = newPath,
                data = numbers_of (Some value),
                time = ctv,
                stats = Some (calculateStats (numbers_of (Some value)))\<rparr>
          in keysLoop ctv rest path (push_signal currentBus signal) (set_own flatSignals id signal)
      else if truthy (Some value) \<and> typeof_object value
              \<and> isNumericArray (get_prop value ''data'') \<and> isNumericArray (get_prop value ''time'') then
        let signal = \<lparr>sig_id = id, sig_name = key, sig_path = newPath,
              data = numbers_of (get_prop value ''data''),
              time = Some (numbers_of (get_prop value ''time'')),
              stats = Some (calculateStats (numbers_of (get_prop value ''data'')))\<rparr>
        in keysLoop ctv rest path (push_signal currentBus signal) (set_own flatSignals id signal)
      else if typeof_object value \<and> \<not> Array_isArray (Some value) then
        let (subBus, flatSignals') = traverse ctv value newPath key flatSignals
        in keysLoop ctv rest path (attach currentBus subBus) flatSignals'
      else if Array_isArray (Some value) \<and> length (array_items (Some value)) > 0
              \<and> typeof_object (array_items (Some value) ! 0) then
        let (currentBus', flatSignals') =
              forEach ctv key newPath (array_items (Some value)) 0 currentBus flatSignals
        in keysLoop ctv rest path currentBus' flatSignals'
      else keysLoop ctv rest path currentBus flatSignals)"
| "forEach ctv key newPath [] index currentBus flatSignals = (currentBus, flatSignals)"
| "forEach ctv key newPath (item # items) index currentBus flatSignals =
     (let (subBus, flatSignals') =
            traverse ctv item (newPath @ [toString index]) (key @ ''['' @ toString index @ '']'') flatSignals
      in forEach ctv key newPath items (Suc index) (attach currentBus subBus) flatSignals')"
  by pat_completeness auto

termination
  apply (relation "measure (\<lambda>x. case x of
      Inl (ctv, node, path, busName, fs) \<Rightarrow> size node
    | Inr (Inl (ctv, entries, path, bus, fs)) \<Rightarrow> size_list (\<lambda>kv. size (snd kv)) entries
    | Inr (Inr (ctv, key, newPath, items, index, bus, fs)) \<Rightarrow> size_list size items)")
  apply (simp_all add: size_Object_keys size_array_items)
  done

declare traverse.simps [simp del]

record ParsedDataset =
  rootBus :: BusNode
  flatSignals :: flat
  commonTimeVector :: "number list option"

datatype error = TypeError

text \<open>
  The first statement of \<open>parseMatlabJson\<close> reads \<open>jsonData.time\<close>; on \<open>null\<close> this
  raises a \<open>TypeError\<close> before anything else happens.
\<close>

definition parseMatlabJson :: "json \<Rightarrow> string \<Rightarrow> error + ParsedDataset" where
  "parseMatlabJson jsonData fileName =
     (if jsonData = JNull then Inl TypeError
      else
        let commonTimeVector =
              (if truthy (get_prop jsonData ''time'') \<and> isNumericArray (get_prop jsonData ''time'')
               then Some (numbers_of (get_prop jsonData ''time''))
               else if truthy (get_prop jsonData ''tout'') \<and> isNumericArray (get_prop jsonData ''tout'')
               then Some (numbers_of (get_prop jsonData ''tout''))
               else if truthy (get_prop jsonData ''t'') \<and> isNumericArray (get_prop jsonData ''t'')
               then Some (numbers_of (get_prop jsonData ''t''))
               else None);
            (rootBus, flatSignals) = traverse commonTimeVector jsonData [] fileName Map.empty
        in Inr \<lparr>rootBus = rootBus, flatSignals = flatSignals,
                 commonTimeVector = commonTimeVector\<rparr>)"

section \<open>Tree filter (\<open>filterBusTree\<close>, dataProcessor.ts)\<close>

text \<open>
  \<open>String.prototype.toLowerCase\<close> is a built-in of the language and not code of this
  repository: it follows the Unicode case mappings of the engine.  \<open>filterBusTree\<close> takes it
  as its first argument \<open>toLowerCase\<close>, an arbitrary function from strings to strings, so
  that every statement about the filter holds whatever the built-in does to a string.
  \<open>includes\<close> is the search for a contiguous subsequence.
\<close>

fun startsWith :: "string \<Rightarrow> string \<Rightarrow> bool" where
  "startsWith s [] = True"
| "startsWith [] (c # cs) = False"
| "startsWith (a # as) (c # cs) = (a = c \<and> startsWith as cs)"

fun includes_str :: "string \<Rightarrow> string \<Rightarrow> bool" where
  "includes_str [] t = (t = [])"
| "includes_str (a # as) t = (startsWith (a # as) t \<or> includes_str as t)"

fun filterBusTree :: "(string \<Rightarrow> string) \<Rightarrow> BusNode \<Rightarrow> string \<Rightarrow> BusNode option" where
  "filterBusTree toLowerCase (BusNode nm pth sigs subs) term =
     (if term = [] then Some (BusNode nm pth sigs subs)
      else
        let lowerTerm = toLowerCase term in
        if includes_str (toLowerCase nm) lowerTerm then Some (BusNode nm pth sigs subs)
        else
          let matchingSignals = filter (\<lambda>s. includes_str (toLowerCase (sig_name s)) lowerTerm) sigs;
              matchingSubBuses = concat (map (\<lambda>sub.
                  case filterBusTree toLowerCase sub term of None \<Rightarrow> [] | Some res \<Rightarrow> [res]) subs)
          in if length matchingSignals > 0 \<or> length matchingSubBuses > 0
             then Some (BusNode nm pth matchingSignals matchingSubBuses)
             else None)"

declare filterBusTree.simps [simp del]

section \<open>Chart data projection (\<open>chartData\<close>, ChartViewer.tsx)\<close>

text \<open>
  A row is the \<open>point\<close> object, as the map of its own properties; a property holds a
  number or \<open>undefined\<close> (what reading an array past its end yields).
  \<open>Math.ceil(dataLength / maxDisplayPoints)\<close> is the exact ceiling: an array length is
  below \<open>2^32\<close>, so the rounded quotient lies on the same side of every integer as the
  exact one.  The \<open>for\<close> loop is \<open>chartLoop\<close>; it returns \<open>None\<close> if it never leaves.
\<close>

datatype cell = Num number | Undefined

type_synonym row = "string \<rightharpoonup> cell"

definition num_of_nat :: "nat \<Rightarrow> number" where
  "num_of_nat i = Finite (of_nat i)"

definition Math_ceil_div :: "nat \<Rightarrow> nat \<Rightarrow> nat" where
  "Math_ceil_div a b = nat \<lceil>(of_nat a :: rat) / of_nat b\<rceil>"

definition index_read :: "number list \<Rightarrow> nat \<Rightarrow> cell" where
  "index_read xs i = (if i < length xs then Num (xs ! i) else Undefined)"

definition chartPoint :: "SignalData list \<Rightarrow> SignalData \<Rightarrow> nat \<Rightarrow> row" where
  "chartPoint sigs baseSignal i =
     (let point = [''index'' \<mapsto> Num (num_of_nat i),
                   ''time'' \<mapsto> (case time baseSignal of
                                  Some t \<Rightarrow> index_read t i
                                | None \<Rightarrow> Num (num_of_nat i))]
      in foldl (\<lambda>point sig.
           if i < length (data sig) then set_own point (sig_id sig) (Num (data sig ! i))
           else point) point sigs)"

partial_function (option) chartLoop ::
  "SignalData list \<Rightarrow> SignalData \<Rightarrow> nat \<Rightarrow> nat \<Rightarrow> nat \<Rightarrow> row list \<Rightarrow> row list option" where
  "chartLoop sigs baseSignal dataLength step i processedData =
     (if i < dataLength
      then chartLoop sigs baseSignal dataLength step (i + step)
             (processedData @ [chartPoint sigs baseSignal i])
      else Some processedData)"

definition chartData :: "SignalData list \<Rightarrow> row list option" where
  "chartData sigs =
     (if length sigs = 0 then Some []
      else
        let baseSignal = sigs ! 0;
            dataLength = length (data baseSignal);
            maxDisplayPoints = 3000;
            step = (if dataLength > maxDisplayPoints
                    then Math_ceil_div dataLength maxDisplayPoints else 1)
        in chartLoop sigs baseSignal dataLength step 0 [])"

section \<open>Notions used in the statements\<close>

text \<open>
  \<open>all_signals\<close> lists every signal of a bus tree, \<open>descendants\<close> every bus that hangs in
  some \<open>subBuses\<close> list below a bus, and \<open>signals_of\<close> collects the signals of a dataset
  reached through the tree or through the flat map.
\<close>

fun all_signals :: "BusNode \<Rightarrow> SignalData list" where
  "all_signals (BusNode nm pth sigs subs) = sigs @ concat (map all_signals subs)"

fun descendants :: "BusNode \<Rightarrow> BusNode list" where
  "descendants (BusNode nm pth sigs subs) = subs @ concat (map descendants subs)"

definition signals_of :: "ParsedDataset \<Rightarrow> SignalData set" where
  "signals_of ds = set (all_signals (rootBus ds)) \<union> ran (flatSignals ds)"


text \<open>A blank search term consists of white space only.\<close>

definition isWhitespace :: "char \<Rightarrow> bool" where
  "isWhitespace c = (c \<in> set [CHR '' '', CHR 0x09, CHR 0x0A, CHR 0x0B, CHR 0x0C, CHR 0x0D])"

definition blank :: "string \<Rightarrow> bool" where
  "blank term = list_all isWhitespace term"

text \<open>
  The examples of the filter are strings of ASCII characters.  On such a string the built-in
  \<open>toLowerCase\<close> replaces each of the capitals \<open>A\<close> to \<open>Z\<close> by its small letter and keeps
  every other character; \<open>ascii_lower\<close> is that function.  It is used at ASCII strings only,
  and only to run the filter on an example.
\<close>

definition ascii_lower_char :: "char \<Rightarrow> char" where
  "ascii_lower_char c =
     (case map_of (zip ''ABCDEFGHIJKLMNOPQRSTUVWXYZ'' ''abcdefghijklmnopqrstuvwxyz'') c of
        Some l \<Rightarrow> l
      | None \<Rightarrow> c)"

definition ascii_lower :: "string \<Rightarrow> string" where
  "ascii_lower s = map ascii_lower_char s"

text \<open>
  Invariants of the traversal: \<open>bus_ok \<Phi>\<close> says that every signal of a tree satisfies
  \<open>\<Phi>\<close> and that every attached bus has a signal or a sub-bus; \<open>flat_ok \<Phi>\<close> is the same
  for the entries of the flat map.
\<close>

definition bus_ok :: "(SignalData \<Rightarrow> bool) \<Rightarrow> BusNode \<Rightarrow> bool" where
  "bus_ok \<Phi> bus = ((\<forall>s\<in>set (all_signals bus). \<Phi> s)
     \<and> (\<forall>d\<in>set (descendants bus). signals d \<noteq> [] \<or> subBuses d \<noteq> []))"

definition flat_ok :: "(SignalData \<Rightarrow> bool) \<Rightarrow> flat \<Rightarrow> bool" where
  "flat_ok \<Phi> fs = (\<forall>s\<in>ran fs. \<Phi> s)"

definition result_ok :: "(SignalData \<Rightarrow> bool) \<Rightarrow> BusNode \<times> flat \<Rightarrow> bool" where
  "result_ok \<Phi> r = (bus_ok \<Phi> (fst r) \<and> flat_ok \<Phi> (snd r))"

definition traverse_ok :: "(json \<Rightarrow> bool) \<Rightarrow> (SignalData \<Rightarrow> bool) \<Rightarrow> number list option \<Rightarrow> json \<Rightarrow> bool" where
  "traverse_ok V \<Phi> ctv node =
     (V node \<longrightarrow> (\<forall>path busName fs. flat_ok \<Phi> fs \<longrightarrow> result_ok \<Phi> (traverse ctv node path busName fs)))"

text \<open>The example of the specification: \<open>{time:[0,1,2], a:[1,2,3], b:{c:[4,5,6]}}\<close>.\<close>

definition example_json :: json where
  "example_json = JObj
     [(''time'', JArr [JNum (Finite 0), JNum (Finite 1), JNum (Finite 2)]),
      (''a'', JArr [JNum (Finite 1), JNum (Finite 2), JNum (Finite 3)]),
      (''b'', JObj [(''c'', JArr [JNum (Finite 4), JNum (Finite 5), JNum (Finite 6)])])]"

definition example_a :: SignalData where
  "example_a = \<lparr>sig_id = ''a'', sig_name = ''a'', sig_path = [''a''],
      data = [Finite 1, Finite 2, Finite 3],
      time = Some [Finite 0, Finite 1, Finite 2],
      stats = Some (calculateStats [Finite 1, Finite 2, Finite 3])\<rparr>"

definition example_c :: SignalData where
  "example_c = \<lparr>sig_id = ''b.c'', sig_name = ''c'', sig_path = [''b'', ''c''],
      data = [Finite 4, Finite 5, Finite 6],
      time = Some [Finite 0, Finite 1, Finite 2],
      stats = Some (calculateStats [Finite 4, Finite 5, Finite 6])\<rparr>"

definition example_dataset :: ParsedDataset where
  "example_dataset = \<lparr>rootBus = BusNode ''demo'' [] [example_a] [BusNode ''b'' [''b''] [example_c] []],
      flatSignals = [''a'' \<mapsto> example_a, ''b.c'' \<mapsto> example_c],
      commonTimeVector = Some [Finite 0, Finite 1, Finite 2]\<rparr>"

text \<open>
  The detection of the common time vector in the words of the specification: of the keys
  \<open>time\<close>, \<open>tout\<close>, \<open>t\<close> of the root object, in this order, the first whose value is a
  numeric sequence gives the vector.  \<open>entry_signals\<close> is the list (empty or of one
  element) of the signals that one entry of an object puts on the bus being built.
\<close>

definition spec_commonTimeVector :: "(string \<times> json) list \<Rightarrow> number list option" where
  "spec_commonTimeVector kvs =
     (case filter (\<lambda>key. isNumericArray (map_of kvs key)) [''time'', ''tout'', ''t''] of
        [] \<Rightarrow> None
      | key # _ \<Rightarrow> Some (numbers_of (map_of kvs key)))"

definition entry_signals :: "number list option \<Rightarrow> string list \<Rightarrow> string \<times> json \<Rightarrow> SignalData list" where
  "entry_signals ctv path kv =
     (if isNumericArray (Some (snd kv)) then
        if (fst kv = ''time'' \<or> fst kv = ''tout'') \<and> path = [] then []
        else [\<lparr>sig_id = join (path @ [fst kv]) ''.'', sig_name = fst kv, sig_path = path @ [fst kv],
                data = numbers_of (Some (snd kv)), time = ctv,
                stats = Some (calculateStats (numbers_of (Some (snd kv))))\<rparr>]
      else if truthy (Some (snd kv)) \<and> typeof_object (snd kv)
              \<and> isNumericArray (get_prop (snd kv) ''data'') \<and> isNumericArray (get_prop (snd kv) ''time'')
      then [\<lparr>sig_id = join (path @ [fst kv]) ''.'', sig_name = fst kv, sig_path = path @ [fst kv],
              data = numbers_of (get_prop (snd kv) ''data''),
              time = Some (numbers_of (get_prop (snd kv) ''time'')),
              stats = Some (calculateStats (numbers_of (get_prop (snd kv) ''data'')))\<rparr>]
      else [])"

text \<open>An array of structures, with a \<open>null\<close> among its elements.\<close>

definition cylinders_json :: json where
  "cylinders_json = JObj [(''cyl'', JArr [JObj [(''p'', JArr [JNum (Finite 1)])], JNull,
                                          JObj [(''p'', JArr [JNum (Finite 2)])]])]"

text \<open>
  Two more inputs: a root with both \<open>time\<close> and \<open>t\<close>, and a root whose common time vector
  is longer than its one signal.
\<close>

definition quirk_entries :: "(string \<times> json) list" where
  "quirk_entries =
     [(''time'', JArr [JNum (Finite 0), JNum (Finite 1)]),
      (''t'', JArr [JNum (Finite 5), JNum (Finite 6)])]"

definition quirk_t :: SignalData where
  "quirk_t = \<lparr>sig_id = ''t'', sig_name = ''t'', sig_path = [''t''],
      data = [Finite 5, Finite 6], time = Some [Finite 0, Finite 1],
      stats = Some (calculateStats [Finite 5, Finite 6])\<rparr>"

definition quirk_dataset :: ParsedDataset where
  "quirk_dataset = \<lparr>rootBus = BusNode ''demo'' [] [quirk_t] [],
      flatSignals = [''t'' \<mapsto> quirk_t], commonTimeVector = Some [Finite 0, Finite 1]\<rparr>"




text \<open>
  \<open>ulp_exp x\<close> is the exponent of the last place of the binary64 values around \<open>x\<close>;
  \<open>is_double\<close> holds of the finite numbers that rounding leaves alone, the binary64
  values; \<open>rat_of\<close> reads a finite number as a rational; \<open>tenth\<close> is the binary64 value
  written \<open>0.1\<close>.
\<close>

definition ulp_exp :: "rat \<Rightarrow> int" where
  "ulp_exp x = max (ilog2 \<bar>x\<bar>) (- 1022) - 52"

fun is_double :: "number \<Rightarrow> bool" where
  "is_double (Finite q) = (round_double q = Finite q)"
| "is_double _ = False"

fun rat_of :: "number \<Rightarrow> rat" where
  "rat_of (Finite q) = q"
| "rat_of _ = 0"

definition tenth :: number where
  "tenth = Finite (3602879701896397 / 36028797018963968)"

text \<open>
  The projection in the words of the specification.  \<open>row_spec sigs i r\<close>: the row \<open>r\<close>
  carries the index \<open>i\<close>, the time of the first signal at \<open>i\<close> (or \<open>i\<close> itself when that
  signal has no time sequence), for every signal a field under its id exactly when \<open>i\<close> is
  below the length of its data, and nothing else.  \<open>chart_spec sigs rows\<close>: there is one
  such row for each of the indices \<open>0, step, 2 * step, \<dots>\<close> below the length \<open>n\<close> of the
  first signal's data, in increasing order, where \<open>step\<close> is \<open>\<lceil>n / 3000\<rceil>\<close> if \<open>n > 3000\<close>
  and \<open>1\<close> otherwise.
\<close>

definition row_spec :: "SignalData list \<Rightarrow> nat \<Rightarrow> row \<Rightarrow> bool" where
  "row_spec sigs i r =
     (r ''index'' = Some (Num (num_of_nat i))
      \<and> r ''time'' = Some (case time (hd sigs) of
                            Some t \<Rightarrow> index_read t i
                          | None \<Rightarrow> Num (num_of_nat i))
      \<and> (\<forall>s\<in>set sigs. r (sig_id s)
            = (if i < length (data s) then Some (Num (data s ! i)) else None))
      \<and> (\<forall>k. k \<noteq> ''index'' \<and> k \<noteq> ''time'' \<and> k \<notin> sig_id ` set sigs \<longrightarrow> r k = None))"

definition chart_spec :: "SignalData list \<Rightarrow> row list \<Rightarrow> bool" where
  "chart_spec sigs rows =
     (let n = length (data (hd sigs));
          step = (if n > 3000 then nat \<lceil>(of_nat n :: rat) / 3000\<rceil> else 1)
      in list_all2 (row_spec sigs) (filter (\<lambda>i. i mod step = 0) [0..<n]) rows)"

definition collide :: SignalData where
  "collide = \<lparr>sig_id = ''index'', sig_name = ''index'', sig_path = [''index''],
      data = [Finite 5], time = None, stats = Some (calculateStats [Finite 5])\<rparr>"

definition example_short :: SignalData where
  "example_short = \<lparr>sig_id = ''s'', sig_name = ''s'', sig_path = [''s''],
      data = [Finite 7, Finite 8], time = None,
      stats = Some (calculateStats [Finite 7, Finite 8])\<rparr>"

section \<open>Evaluating the rounding functions\<close>

lemma bitlen_rat_bounds:
  assumes "0 < p"
  shows "(2::rat) powi (bitlen p - 1) \<le> of_int p \<and> of_int p < (2::rat) powi (bitlen p)"
proof -
  have b: "1 \<le> bitlen p" using assms by (simp add: bitlen_ge_iff_power)
  have "(2::int) ^ nat (bitlen p - 1) \<le> p" "p < 2 ^ nat (bitlen p)"
    using bitlen_bounds[OF assms] by simp_all
  then have "(of_int (2 ^ nat (bitlen p - 1))::rat) \<le> of_int p"
    and "(of_int p::rat) < of_int (2 ^ nat (bitlen p))"
    by (simp_all only: of_int_le_iff of_int_less_iff)
  then show ?thesis using b by (simp add: power_int_nonneg_exp)
qed

lemma ilog2_bounds:
  assumes "0 < x"
  shows "2 powi (ilog2 x) \<le> x" and "x < 2 powi (ilog2 x + 1)"
proof -
  obtain p q where pq: "quotient_of x = (p, q)" by (cases "quotient_of x")
  have q: "0 < q" using pq by (rule quotient_of_denom_pos)
  have x: "x = of_int p / of_int q" using pq by (rule quotient_of_div)
  have p: "0 < p" using assms q unfolding x by (simp add: zero_less_divide_iff)
  define k where "k = bitlen p - bitlen q"
  have P: "(2::rat) powi (bitlen p - 1) \<le> of_int p" "of_int p < (2::rat) powi (bitlen p)"
    using bitlen_rat_bounds[OF p] by simp_all
  have Q: "(2::rat) powi (bitlen q - 1) \<le> of_int q" "of_int q < (2::rat) powi (bitlen q)"
    using bitlen_rat_bounds[OF q] by simp_all
  have qpos: "(0::rat) < of_int q" using q by simp
  have up: "x < 2 powi (k + 1)"
  proof -
    have "of_int p < (2::rat) powi (k + 1) * 2 powi (bitlen q - 1)"
      using P(2) by (simp add: k_def flip: power_int_add)
    also have "\<dots> \<le> 2 powi (k + 1) * of_int q"
      using Q(1) by (simp add: mult_left_mono)
    finally show ?thesis unfolding x using qpos by (simp add: pos_divide_less_eq)
  qed
  have lo: "2 powi (k - 1) < x"
  proof -
    have "(2::rat) powi (k - 1) * of_int q < 2 powi (k - 1) * 2 powi (bitlen q)"
      using Q(2) by (simp add: mult_strict_left_mono)
    also have "\<dots> = 2 powi (bitlen p - 1)"
      by (simp add: k_def flip: power_int_add)
    also have "\<dots> \<le> of_int p" by (rule P(1))
    finally show ?thesis unfolding x using qpos by (simp add: pos_less_divide_eq)
  qed
  have il: "ilog2 x = (if 2 powi k \<le> x then k else k - 1)"
    by (simp add: ilog2_def pq k_def Let_def)
  show "2 powi (ilog2 x) \<le> x" using lo by (simp add: il)
  show "x < 2 powi (ilog2 x + 1)" using up by (simp add: il)
qed

lemma ilog2_eqI:
  assumes "2 powi k \<le> x" and "x < 2 powi (k + 1)"
  shows "ilog2 x = k"
proof -
  have x: "0 < x" using assms(1) by (rule less_le_trans[rotated]) simp
  have "(2::rat) powi k < 2 powi (ilog2 x + 1)"
    using assms(1) ilog2_bounds(2)[OF x] by simp
  then have a: "k < ilog2 x + 1"
    using power_int_increasing[of "ilog2 x + 1" k "2::rat"] by (cases "k < ilog2 x + 1") auto
  have "(2::rat) powi (ilog2 x) < 2 powi (k + 1)"
    using assms(2) ilog2_bounds(1)[OF x] by simp
  then have b: "ilog2 x < k + 1"
    using power_int_increasing[of "k + 1" "ilog2 x" "2::rat"] by (cases "ilog2 x < k + 1") auto
  from a b show ?thesis by simp
qed

lemma round_double_eval:
  assumes "2 powi k \<le> \<bar>x\<bar>" and "\<bar>x\<bar> < 2 powi (k + 1)"
  shows "round_double x =
     (let e = max k (- 1022) - 52;
          y = of_int (round_half_even (x / 2 powi e)) * 2 powi e
      in if 2 powi 1024 \<le> \<bar>y\<bar> then (if 0 < x then PosInfinity else NegInfinity) else Finite y)"
proof -
  have "(0::rat) < 2 powi k" by simp
  then have "0 < \<bar>x\<bar>" using assms(1) by (rule less_le_trans)
  then have "x \<noteq> 0" by simp
  then show ?thesis by (simp add: round_double_def ilog2_eqI[OF assms])
qed

lemma round_sqrt_eval:
  assumes "2 powi k \<le> v" and "v < 2 powi (k + 1)"
  shows "round_sqrt v =
     (let e = max (k div 2) (- 1022) - 52;
         w = v / 2 powi (2 * e);
         f = int (isqrt (nat \<lfloor>w\<rfloor>));
         h = (of_int f + 1 / 2) * (of_int f + 1 / 2);
         m = (if w < h then f else if h < w then f + 1 else if even f then f else f + 1)
     in Finite (of_int m * 2 powi e))"
proof -
  have "(0::rat) < 2 powi k" by simp
  then have "0 < v" using assms(1) by (rule less_le_trans)
  then have "v \<noteq> 0" by simp
  then show ?thesis by (simp add: round_sqrt_def ilog2_eqI[OF assms])
qed

lemma floor_rat_numeral_div [simp]:
  "\<lfloor>(numeral a :: rat) / numeral b\<rfloor> = numeral a div numeral b"
  "\<lfloor>- (numeral a :: rat) / numeral b\<rfloor> = - numeral a div numeral b"
  using floor_divide_of_int_eq[of "numeral a" "numeral b", where ?'a = rat]
        floor_divide_of_int_eq[of "- numeral a" "numeral b", where ?'a = rat]
  by simp_all

lemma isqrt_correct: "isqrt n * isqrt n \<le> n \<and> n < (isqrt n + 1) * (isqrt n + 1)"
proof (induction n rule: isqrt.induct)
  case (1 n)
  show ?case
  proof (cases "n < 2")
    case True
    then show ?thesis by (subst (1 2 3 4) isqrt.simps) auto
  next
    case False
    define r where "r = isqrt (n div 4)"
    have ih: "r * r \<le> n div 4" "n div 4 < (r + 1) * (r + 1)"
      using 1[OF False] by (simp_all add: r_def)
    have lo: "(2 * r) * (2 * r) \<le> n" using ih(1) by (simp add: algebra_simps, arith?)
    have "n div 4 + 1 \<le> (r + 1) * (r + 1)" using ih(2) by simp
    then have "4 * (n div 4) + 4 \<le> 4 * ((r + 1) * (r + 1))" by simp
    then have hi: "n < (2 * r + 2) * (2 * r + 2)" by (simp add: algebra_simps, arith?)
    have e: "isqrt n = (if (2 * r + 1) * (2 * r + 1) \<le> n then 2 * r + 1 else 2 * r)"
      using False by (subst isqrt.simps) (simp add: r_def Let_def)
    show ?thesis
    proof (cases "(2 * r + 1) * (2 * r + 1) \<le> n")
      case True
      then show ?thesis using hi by (simp add: e)
    next
      case False
      then show ?thesis using lo by (simp add: e)
    qed
  qed
qed

lemma round_sqrt_two: "Math_sqrt (Finite 2) = Finite (6369051672525773 / 4503599627370496)"
  apply simp
  apply (subst round_sqrt_eval[where k = 1])
    apply (simp_all add: Let_def isqrt.simps)
  done

lemma round_double_overflow: "round_double (2 ^ 1024 - 2 ^ 970) = PosInfinity"
  by (subst round_double_eval[where k = 1023]) (simp_all add: round_half_even_def Let_def)

section \<open>Rounding is monotone at binary64 values\<close>

text \<open>
  A rational below a binary64 value rounds to a number below that value, and dually: the
  rounded value is a nearest one, so it cannot pass a representable bound.
\<close>

lemma round_double_alt:
  "x \<noteq> 0 \<Longrightarrow> round_double x =
     (if 2 powi 1024 \<le> \<bar>rat_of_int (round_half_even (x / 2 powi ulp_exp x)) * 2 powi ulp_exp x\<bar>
      then (if 0 < x then PosInfinity else NegInfinity)
      else Finite (rat_of_int (round_half_even (x / 2 powi ulp_exp x)) * 2 powi ulp_exp x))"
  by (simp add: round_double_def ulp_exp_def Let_def)

lemma round_half_even_le:
  assumes "r \<le> of_int n"
  shows "round_half_even r \<le> n"
proof (cases "r - of_int \<lfloor>r\<rfloor> < 1 / 2")
  case True
  have "\<lfloor>r\<rfloor> \<le> n" using assms by (simp add: floor_le_iff, linarith?)
  then show ?thesis using True by (simp add: round_half_even_def Let_def)
next
  case False
  have "of_int \<lfloor>r\<rfloor> < r" using False by linarith
  then have "of_int \<lfloor>r\<rfloor> < (of_int n :: rat)" using assms by linarith
  then have "\<lfloor>r\<rfloor> < n" by simp
  then show ?thesis by (auto simp: round_half_even_def Let_def)
qed

lemma round_half_even_ge:
  assumes "of_int n \<le> r"
  shows "n \<le> round_half_even r"
proof -
  have "n \<le> \<lfloor>r\<rfloor>" using assms by (simp add: le_floor_iff)
  then show ?thesis by (auto simp: round_half_even_def Let_def)
qed

lemma ilog2_mono:
  assumes "0 < a" and "a \<le> b"
  shows "ilog2 a \<le> ilog2 b"
proof -
  have b: "0 < b" using assms by simp
  have "(2::rat) powi (ilog2 a) < 2 powi (ilog2 b + 1)"
    using ilog2_bounds(1)[OF assms(1)] ilog2_bounds(2)[OF b] assms(2) by linarith
  then have "ilog2 a < ilog2 b + 1"
    using power_int_increasing[of "ilog2 b + 1" "ilog2 a" "2::rat"]
    by (cases "ilog2 a < ilog2 b + 1") auto
  then show ?thesis by simp
qed

lemma ulp_exp_mono: "x \<noteq> 0 \<Longrightarrow> \<bar>x\<bar> \<le> \<bar>y\<bar> \<Longrightarrow> ulp_exp x \<le> ulp_exp y"
  using ilog2_mono[of "\<bar>x\<bar>" "\<bar>y\<bar>"] by (simp add: ulp_exp_def)

lemma abs_less_ulp:
  assumes "x \<noteq> 0"
  shows "\<bar>x\<bar> < 2 powi (ulp_exp x + 53)"
proof -
  have "\<bar>x\<bar> < 2 powi (ilog2 \<bar>x\<bar> + 1)" using assms by (simp add: ilog2_bounds(2))
  also have "\<dots> \<le> 2 powi (ulp_exp x + 53)"
    by (rule power_int_increasing) (simp_all add: ulp_exp_def)
  finally show ?thesis .
qed

lemma abs_ge_ulp:
  assumes "x \<noteq> 0" and "- 1074 < ulp_exp x"
  shows "2 powi (ulp_exp x + 52) \<le> \<bar>x\<bar>"
proof -
  have "ulp_exp x + 52 = ilog2 \<bar>x\<bar>" using assms(2) by (simp add: ulp_exp_def max_def split: if_splits)
  then show ?thesis using assms(1) by (simp add: ilog2_bounds(1))
qed

lemma ulp_exp_ge: "- 1074 \<le> ulp_exp x"
  by (simp add: ulp_exp_def)

lemma scaled_less:
  fixes x :: rat
  shows "x < 2 powi (e + k) \<Longrightarrow> x / 2 powi e < 2 powi k"
    and "x \<le> 2 powi (e + k) \<Longrightarrow> x / 2 powi e \<le> 2 powi k"
    and "2 powi (e + k) \<le> x \<Longrightarrow> 2 powi k \<le> x / 2 powi e"
  by (simp_all add: power_int_add pos_divide_less_eq pos_divide_le_eq pos_le_divide_eq mult.commute)

lemma double_decomp:
  assumes "round_double h = Finite h" and "h \<noteq> 0"
  shows "h = rat_of_int (round_half_even (h / 2 powi ulp_exp h)) * 2 powi ulp_exp h"
    and "\<bar>h\<bar> < 2 powi 1024"
  using assms(1) unfolding round_double_alt[OF assms(2)]
  by (simp_all split: if_splits)

lemma scaled_int_le:
  fixes M N :: int
  assumes "M \<le> N"
  shows "rat_of_int M * 2 powi E \<le> rat_of_int N * 2 powi E"
  using assms by (simp add: mult_right_mono)

lemma round_same_ulp:
  assumes "round_double h = Finite h" and "h \<noteq> 0" and "q \<le> h" and "ulp_exp q = ulp_exp h"
  shows "rat_of_int (round_half_even (q / 2 powi ulp_exp q)) * 2 powi ulp_exp q \<le> h"
proof -
  let ?E = "ulp_exp h"
  let ?Mh = "round_half_even (h / 2 powi ?E)"
  have "q / 2 powi ?E \<le> h / 2 powi ?E" using assms(3) by (simp add: divide_right_mono)
  also have "h / 2 powi ?E = of_int ?Mh"
    using double_decomp(1)[OF assms(1,2)] by (simp add: nonzero_divide_eq_eq)
  finally have "round_half_even (q / 2 powi ?E) \<le> ?Mh" by (rule round_half_even_le)
  then have "rat_of_int (round_half_even (q / 2 powi ?E)) * 2 powi ?E \<le> rat_of_int ?Mh * 2 powi ?E"
    by (rule scaled_int_le)
  then show ?thesis using double_decomp(1)[OF assms(1,2)] assms(4) by simp
qed

lemma round_pos_bound:
  assumes "0 < q"
  shows "rat_of_int (round_half_even (q / 2 powi ulp_exp q)) * 2 powi ulp_exp q
     \<le> 2 powi (ulp_exp q + 53)"
proof -
  have q: "q \<noteq> 0" using assms by simp
  have "q < 2 powi (ulp_exp q + 53)" using abs_less_ulp[OF q] assms by simp
  then have "q / 2 powi ulp_exp q < 2 powi 53" by (rule scaled_less(1))
  then have "q / 2 powi ulp_exp q \<le> rat_of_int 9007199254740992" by simp
  then have "round_half_even (q / 2 powi ulp_exp q) \<le> 9007199254740992"
    by (rule round_half_even_le)
  then have "rat_of_int (round_half_even (q / 2 powi ulp_exp q)) * 2 powi ulp_exp q
      \<le> rat_of_int 9007199254740992 * 2 powi ulp_exp q"
    by (rule scaled_int_le)
  also have "\<dots> = 2 powi (ulp_exp q + 53)" by (simp add: power_int_add)
  finally show ?thesis .
qed

lemma round_neg_bound:
  assumes "q < 0" and "- 1074 < ulp_exp q"
  shows "rat_of_int (round_half_even (q / 2 powi ulp_exp q)) * 2 powi ulp_exp q
     \<le> - (2 powi (ulp_exp q + 52))"
proof -
  have q: "q \<noteq> 0" using assms by simp
  have "2 powi (ulp_exp q + 52) \<le> - q" using abs_ge_ulp[OF q assms(2)] assms(1) by simp
  then have "2 powi 52 \<le> (- q) / 2 powi ulp_exp q" by (rule scaled_less(3))
  then have "q / 2 powi ulp_exp q \<le> rat_of_int (- 4503599627370496)" by simp
  then have "round_half_even (q / 2 powi ulp_exp q) \<le> - 4503599627370496"
    by (rule round_half_even_le)
  then have "rat_of_int (round_half_even (q / 2 powi ulp_exp q)) * 2 powi ulp_exp q
      \<le> rat_of_int (- 4503599627370496) * 2 powi ulp_exp q"
    by (rule scaled_int_le)
  also have "\<dots> = - (2 powi (ulp_exp q + 52))" by (simp add: power_int_add)
  finally show ?thesis .
qed

lemma round_nonpos:
  assumes "q \<le> 0"
  shows "rat_of_int (round_half_even (q / 2 powi ulp_exp q)) * 2 powi ulp_exp q \<le> 0"
proof -
  have "q / 2 powi ulp_exp q \<le> rat_of_int 0" using assms by (simp add: divide_le_0_iff)
  then have "round_half_even (q / 2 powi ulp_exp q) \<le> 0" by (rule round_half_even_le)
  then show ?thesis by (simp add: mult_le_0_iff)
qed

lemma round_nonneg:
  assumes "0 \<le> q"
  shows "0 \<le> rat_of_int (round_half_even (q / 2 powi ulp_exp q)) * 2 powi ulp_exp q"
proof -
  have "rat_of_int 0 \<le> q / 2 powi ulp_exp q" using assms by simp
  then have "0 \<le> round_half_even (q / 2 powi ulp_exp q)" by (rule round_half_even_ge)
  then show ?thesis by simp
qed

lemma rounded_le_double:
  assumes h: "round_double h = Finite h" and q: "q \<noteq> 0" and le: "q \<le> h"
  shows "rat_of_int (round_half_even (q / 2 powi ulp_exp q)) * 2 powi ulp_exp q \<le> h"
proof (cases "0 < q")
  case True
  then have hn: "h \<noteq> 0" and hp: "0 < h" using le by simp_all
  have m: "ulp_exp q \<le> ulp_exp h" using ulp_exp_mono[OF q, of h] True le by simp
  show ?thesis
  proof (cases "ulp_exp q = ulp_exp h")
    case True
    then show ?thesis by (rule round_same_ulp[OF h hn le])
  next
    case False
    then have lt: "ulp_exp q < ulp_exp h" using m by simp
    then have "- 1074 < ulp_exp h" using ulp_exp_ge[of q] by linarith
    then have "2 powi (ulp_exp h + 52) \<le> h" using abs_ge_ulp[OF hn] hp by simp
    moreover have "(2::rat) powi (ulp_exp q + 53) \<le> 2 powi (ulp_exp h + 52)"
      by (rule power_int_increasing) (use lt in simp_all)
    ultimately show ?thesis using round_pos_bound[OF True] by linarith
  qed
next
  case False
  then have qn: "q < 0" using q by simp
  show ?thesis
  proof (cases "0 \<le> h")
    case True
    then show ?thesis using round_nonpos[of q] qn by linarith
  next
    case False
    then have hn: "h \<noteq> 0" and hneg: "h < 0" by simp_all
    have m: "ulp_exp h \<le> ulp_exp q" using ulp_exp_mono[OF hn, of q] hneg qn le by simp
    show ?thesis
    proof (cases "ulp_exp q = ulp_exp h")
      case True
      then show ?thesis by (rule round_same_ulp[OF h hn le])
    next
      case False
      then have lt: "ulp_exp h < ulp_exp q" using m by simp
      then have "- 1074 < ulp_exp q" using ulp_exp_ge[of h] by linarith
      then have a: "rat_of_int (round_half_even (q / 2 powi ulp_exp q)) * 2 powi ulp_exp q
          \<le> - (2 powi (ulp_exp q + 52))"
        by (rule round_neg_bound[OF qn])
      have "- h < 2 powi (ulp_exp h + 53)" using abs_less_ulp[OF hn] hneg by simp
      moreover have "(2::rat) powi (ulp_exp h + 53) \<le> 2 powi (ulp_exp q + 52)"
        by (rule power_int_increasing) (use lt in simp_all)
      ultimately show ?thesis using a by linarith
    qed
  qed
qed

lemma round_double_upper:
  assumes h: "round_double h = Finite h" and le: "q \<le> h"
  shows "num_le (round_double q) (Finite h)"
proof (cases "q = 0")
  case True
  then show ?thesis using le by (simp add: round_double_def)
next
  case False
  let ?Y = "rat_of_int (round_half_even (q / 2 powi ulp_exp q)) * 2 powi ulp_exp q"
  have Y: "?Y \<le> h" by (rule rounded_le_double[OF h False le])
  have hb: "h < 2 powi 1024"
  proof (cases "h = 0")
    case True
    then show ?thesis by simp
  next
    case False
    then show ?thesis using double_decomp(2)[OF h False] by linarith
  qed
  show ?thesis
  proof (cases "2 powi 1024 \<le> \<bar>?Y\<bar>")
    case over: True
    show ?thesis
    proof (cases "0 < q")
      case True
      then have "0 \<le> ?Y" using round_nonneg[of q] by simp
      then have "2 powi 1024 \<le> ?Y" using over by linarith
      then show ?thesis using Y hb by linarith
    next
      case False
      then show ?thesis using over \<open>q \<noteq> 0\<close> by (simp add: round_double_alt)
    qed
  next
    case False
    then show ?thesis using Y \<open>q \<noteq> 0\<close> by (simp add: round_double_alt)
  qed
qed

lemma round_half_even_neg: "round_half_even (- r) = - round_half_even r"
proof (cases "r = of_int \<lfloor>r\<rfloor>")
  case True
  then have "- r = of_int (- \<lfloor>r\<rfloor>)" by simp
  then have "\<lfloor>- r\<rfloor> = - \<lfloor>r\<rfloor>" by (metis floor_of_int)
  then show ?thesis using True by (simp add: round_half_even_def Let_def)
next
  case False
  then have f: "\<lfloor>- r\<rfloor> = - \<lfloor>r\<rfloor> - 1" by (simp add: floor_minus ceiling_altdef)
  have d: "0 < r - of_int \<lfloor>r\<rfloor>" using False by (metis diff_gt_0_iff_gt of_int_floor_le order_le_less)
  show ?thesis
    unfolding round_half_even_def Let_def f using d by (auto simp: algebra_simps)
qed

lemma round_double_neg: "round_double (- x) = num_neg (round_double x)"
proof (cases "x = 0")
  case True
  then show ?thesis by (simp add: round_double_def)
next
  case False
  have e: "ulp_exp (- x) = ulp_exp x" by (simp add: ulp_exp_def)
  show ?thesis
    using False by (simp add: round_double_alt e round_half_even_neg)
qed

lemma num_le_neg: "num_le (num_neg a) (num_neg b) = num_le b a"
  by (cases a; cases b) simp_all

lemma round_double_lower:
  assumes l: "round_double l = Finite l" and le: "l \<le> q"
  shows "num_le (Finite l) (round_double q)"
proof -
  have "round_double (- l) = Finite (- l)" using l by (simp add: round_double_neg)
  moreover have "- q \<le> - l" using le by simp
  ultimately have "num_le (round_double (- q)) (Finite (- l))" by (rule round_double_upper)
  then have "num_le (num_neg (round_double q)) (num_neg (Finite l))"
    by (simp add: round_double_neg)
  then show ?thesis by (simp only: num_le_neg)
qed

section \<open>The traversal, one entry at a time\<close>

declare keysLoop.simps(2) [simp del] forEach.simps(2) [simp del]

lemma keysLoop_Cons:
  "keysLoop ctv ((key, value) # rest) path bus fs =
     (case keysLoop ctv [(key, value)] path bus fs of (bus', fs') \<Rightarrow> keysLoop ctv rest path bus' fs')"
  by (auto simp: keysLoop.simps(2)[of _ _ _ rest] keysLoop.simps(2)[of _ _ _ "[]"] Let_def split: prod.splits)

lemma forEach_Cons:
  "forEach ctv key newPath (item # items) index bus fs =
     (case forEach ctv key newPath [item] index bus fs of
        (bus', fs') \<Rightarrow> forEach ctv key newPath items (Suc index) bus' fs')"
  by (simp add: forEach.simps(2)[of _ _ _ _ items] forEach.simps(2)[of _ _ _ _ "[]"] Let_def split: prod.splits)

lemma keysLoop_single:
  "keysLoop ctv [(key, value)] path bus fs =
     (if isNumericArray (Some value) then
        if (key = ''time'' \<or> key = ''tout'') \<and> path = [] then (bus, fs)
        else
          let signal = \<lparr>sig_id = join (path @ [key]) ''.'', sig_name = key, sig_path = path @ [key],
                data = numbers_of (Some value), time = ctv,
                stats = Some (calculateStats (numbers_of (Some value)))\<rparr>
          in (push_signal bus signal, set_own fs (join (path @ [key]) ''.'') signal)
      else if truthy (Some value) \<and> typeof_object value
              \<and> isNumericArray (get_prop value ''data'') \<and> isNumericArray (get_prop value ''time'') then
        let signal = \<lparr>sig_id = join (path @ [key]) ''.'', sig_name = key, sig_path = path @ [key],
              data = numbers_of (get_prop value ''data''),
              time = Some (numbers_of (get_prop value ''time'')),
              stats = Some (calculateStats (numbers_of (get_prop value ''data'')))\<rparr>
        in (push_signal bus signal, set_own fs (join (path @ [key]) ''.'') signal)
      else if typeof_object value \<and> \<not> Array_isArray (Some value) then
        case traverse ctv value (path @ [key]) key fs of
          (subBus, fs') \<Rightarrow> (attach bus subBus, fs')
      else if Array_isArray (Some value) \<and> array_items (Some value) \<noteq> []
              \<and> typeof_object (array_items (Some value) ! 0) then
        forEach ctv key (path @ [key]) (array_items (Some value)) 0 bus fs
      else (bus, fs))"
  by (auto simp: keysLoop.simps(2) Let_def split: prod.splits)

lemma forEach_single:
  "forEach ctv key newPath [item] index bus fs =
     (case traverse ctv item (newPath @ [toString index]) (key @ ''['' @ toString index @ '']'') fs of
        (subBus, fs') \<Rightarrow> (attach bus subBus, fs'))"
  by (simp add: forEach.simps(2) split: prod.splits)

lemma bus_ok_new: "bus_ok \<Phi> (BusNode nm pth [] [])"
  by (simp add: bus_ok_def)

lemma bus_ok_push_signal: "bus_ok \<Phi> bus \<Longrightarrow> \<Phi> s \<Longrightarrow> bus_ok \<Phi> (push_signal bus s)"
  by (cases bus) (auto simp: bus_ok_def push_signal_def)

lemma bus_ok_attach: "bus_ok \<Phi> bus \<Longrightarrow> bus_ok \<Phi> sub \<Longrightarrow> bus_ok \<Phi> (attach bus sub)"
  by (cases bus) (auto simp: bus_ok_def attach_def push_subBus_def)

lemma flat_ok_set_own: "flat_ok \<Phi> fs \<Longrightarrow> \<Phi> s \<Longrightarrow> flat_ok \<Phi> (set_own fs k s)"
  by (auto simp: flat_ok_def set_own_def ran_def)

lemma forEach_ok:
  assumes "\<forall>x\<in>set items. V x \<and> traverse_ok V \<Phi> ctv x"
    and "bus_ok \<Phi> bus" and "flat_ok \<Phi> fs"
  shows "result_ok \<Phi> (forEach ctv key newPath items index bus fs)"
  using assms
proof (induction items arbitrary: index bus fs)
  case Nil
  then show ?case by (simp add: result_ok_def)
next
  case (Cons item items)
  obtain sub fs' where t: "traverse ctv item (newPath @ [toString index])
      (key @ ''['' @ toString index @ '']'') fs = (sub, fs')"
    by (cases "traverse ctv item (newPath @ [toString index]) (key @ ''['' @ toString index @ '']'') fs")
  have "result_ok \<Phi> (sub, fs')"
    using Cons.prems t unfolding traverse_ok_def by (metis list.set_intros(1))
  then have "bus_ok \<Phi> (attach bus sub)" "flat_ok \<Phi> fs'"
    using Cons.prems(2) by (simp_all add: result_ok_def bus_ok_attach)
  then have "result_ok \<Phi> (forEach ctv key newPath items (Suc index) (attach bus sub) fs')"
    using Cons.IH Cons.prems(1) by simp
  then show ?case using t by (simp add: forEach_Cons[of _ _ _ item items] forEach_single)
qed

lemma keysLoop_ok:
  assumes A1: "\<And>i n p v. V v \<Longrightarrow> isNumericArray (Some v) \<Longrightarrow>
          \<Phi> \<lparr>sig_id = i, sig_name = n, sig_path = p, data = numbers_of (Some v), time = ctv,
             stats = Some (calculateStats (numbers_of (Some v)))\<rparr>"
    and A2: "\<And>i n p v. V v \<Longrightarrow> isNumericArray (get_prop v ''data'') \<Longrightarrow>
          isNumericArray (get_prop v ''time'') \<Longrightarrow>
          \<Phi> \<lparr>sig_id = i, sig_name = n, sig_path = p, data = numbers_of (get_prop v ''data''),
             time = Some (numbers_of (get_prop v ''time'')),
             stats = Some (calculateStats (numbers_of (get_prop v ''data'')))\<rparr>"
    and E: "\<forall>kv\<in>set entries. V (snd kv) \<and> traverse_ok V \<Phi> ctv (snd kv)
          \<and> (\<forall>x\<in>set (array_items (Some (snd kv))). V x \<and> traverse_ok V \<Phi> ctv x)"
    and B: "bus_ok \<Phi> bus" and F: "flat_ok \<Phi> fs"
  shows "result_ok \<Phi> (keysLoop ctv entries path bus fs)"
  using E B F
proof (induction entries arbitrary: bus fs)
  case Nil
  then show ?case by (simp add: result_ok_def)
next
  case (Cons kv entries)
  obtain key v where kv: "kv = (key, v)" by (cases kv)
  have Vv: "V v" and Tv: "traverse_ok V \<Phi> ctv v"
    and Iv: "\<forall>x\<in>set (array_items (Some v)). V x \<and> traverse_ok V \<Phi> ctv x"
    using Cons.prems(1) kv by simp_all
  have step: "result_ok \<Phi> (keysLoop ctv [(key, v)] path bus fs)"
  proof -
    have tr: "result_ok \<Phi> (case traverse ctv v (path @ [key]) key fs of
          (subBus, fs') \<Rightarrow> (attach bus subBus, fs'))"
    proof -
      have "result_ok \<Phi> (traverse ctv v (path @ [key]) key fs)"
        using Tv Vv Cons.prems(3) by (simp add: traverse_ok_def)
      then show ?thesis using Cons.prems(2)
        by (auto simp: result_ok_def bus_ok_attach split: prod.splits)
    qed
    have fe: "result_ok \<Phi> (forEach ctv key (path @ [key]) (array_items (Some v)) 0 bus fs)"
      using Iv Cons.prems(2,3) by (rule forEach_ok)
    show ?thesis
    proof (cases "isNumericArray (Some v)")
      case True
      then show ?thesis
        using Cons.prems(2,3) A1[OF Vv True]
        by (cases "(key = ''time'' \<or> key = ''tout'') \<and> path = []")
          (simp_all add: keysLoop_single result_ok_def Let_def bus_ok_push_signal flat_ok_set_own)
    next
      case na: False
      show ?thesis
      proof (cases "truthy (Some v) \<and> typeof_object v
              \<and> isNumericArray (get_prop v ''data'') \<and> isNumericArray (get_prop v ''time'')")
        case True
        then show ?thesis
          using na Cons.prems(2,3) A2[OF Vv, of _ _ _] 
          by (simp add: keysLoop_single result_ok_def Let_def bus_ok_push_signal flat_ok_set_own)
      next
        case nt: False
        show ?thesis
        proof (cases "typeof_object v \<and> \<not> Array_isArray (Some v)")
          case True
          then show ?thesis using na nt tr by (auto simp: keysLoop_single)
        next
          case no: False
          show ?thesis
          proof (cases "Array_isArray (Some v) \<and> array_items (Some v) \<noteq> []
              \<and> typeof_object (array_items (Some v) ! 0)")
            case True
            then show ?thesis using na nt no fe by (auto simp: keysLoop_single)
          next
            case False
            then show ?thesis using na nt no Cons.prems(2,3)
              by (auto simp: keysLoop_single result_ok_def)
          qed
        qed
      qed
    qed
  qed
  obtain bus' fs' where r: "keysLoop ctv [(key, v)] path bus fs = (bus', fs')"
    by (cases "keysLoop ctv [(key, v)] path bus fs")
  have "result_ok \<Phi> (keysLoop ctv entries path bus' fs')"
    using Cons.IH[of bus' fs'] Cons.prems(1) step r by (simp add: result_ok_def)
  then show ?case by (simp add: kv keysLoop_Cons[of _ key v entries] r)
qed

lemma traverse_ok_all:
  assumes Vobj: "\<And>kvs k v. V (JObj kvs) \<Longrightarrow> (k, v) \<in> set kvs \<Longrightarrow> V v"
    and Varr: "\<And>xs x. V (JArr xs) \<Longrightarrow> x \<in> set xs \<Longrightarrow> V x"
    and A1: "\<And>i n p v. V v \<Longrightarrow> isNumericArray (Some v) \<Longrightarrow>
          \<Phi> \<lparr>sig_id = i, sig_name = n, sig_path = p, data = numbers_of (Some v), time = ctv,
             stats = Some (calculateStats (numbers_of (Some v)))\<rparr>"
    and A2: "\<And>i n p v. V v \<Longrightarrow> isNumericArray (get_prop v ''data'') \<Longrightarrow>
          isNumericArray (get_prop v ''time'') \<Longrightarrow>
          \<Phi> \<lparr>sig_id = i, sig_name = n, sig_path = p, data = numbers_of (get_prop v ''data''),
             time = Some (numbers_of (get_prop v ''time'')),
             stats = Some (calculateStats (numbers_of (get_prop v ''data'')))\<rparr>"
  shows "traverse_ok V \<Phi> ctv node
     \<and> (\<forall>x\<in>set (array_items (Some node)). traverse_ok V \<Phi> ctv x)"
proof (induction node)
  case (JArr xs)
  have items: "V x" if "V v" "x \<in> set (array_items (Some v))" for v x
    using that Varr by (cases v) auto
  have "traverse_ok V \<Phi> ctv (JArr xs)"
    unfolding traverse_ok_def
  proof (intro impI allI)
    fix path busName fs
    assume V: "V (JArr xs)" and F: "flat_ok \<Phi> fs"
    have E: "\<forall>kv\<in>set (Object_keys (JArr xs)). V (snd kv) \<and> traverse_ok V \<Phi> ctv (snd kv)
          \<and> (\<forall>x\<in>set (array_items (Some (snd kv))). V x \<and> traverse_ok V \<Phi> ctv x)"
    proof
      fix kv assume a: "kv \<in> set (Object_keys (JArr xs))"
      have m: "snd kv \<in> set xs"
        using a set_zip_rightD[of "fst kv" "snd kv" "map toString [0..<length xs]" xs] by simp
      then have Vk: "V (snd kv)" using V Varr by blast
      show "V (snd kv) \<and> traverse_ok V \<Phi> ctv (snd kv)
          \<and> (\<forall>x\<in>set (array_items (Some (snd kv))). V x \<and> traverse_ok V \<Phi> ctv x)"
        using Vk JArr[OF m] items[OF Vk] by blast
    qed
    show "result_ok \<Phi> (traverse ctv (JArr xs) path busName fs)"
      using keysLoop_ok[where V = V and \<Phi> = \<Phi>, OF A1 A2 E bus_ok_new F]
      by (simp add: traverse.simps)
  qed
  then show ?case using JArr by simp
next
  case (JObj kvs)
  have items: "V x" if "V v" "x \<in> set (array_items (Some v))" for v x
    using that Varr by (cases v) auto
  have "traverse_ok V \<Phi> ctv (JObj kvs)"
    unfolding traverse_ok_def
  proof (intro impI allI)
    fix path busName fs
    assume V: "V (JObj kvs)" and F: "flat_ok \<Phi> fs"
    have E: "\<forall>kv\<in>set (Object_keys (JObj kvs)). V (snd kv) \<and> traverse_ok V \<Phi> ctv (snd kv)
          \<and> (\<forall>x\<in>set (array_items (Some (snd kv))). V x \<and> traverse_ok V \<Phi> ctv x)"
    proof
      fix kv assume m: "kv \<in> set (Object_keys (JObj kvs))"
      then have Vk: "V (snd kv)" using V Vobj[of kvs "fst kv" "snd kv"] by simp
      have "snd kv \<in> Basic_BNFs.snds kv" by (cases kv) simp
      then show "V (snd kv) \<and> traverse_ok V \<Phi> ctv (snd kv)
          \<and> (\<forall>x\<in>set (array_items (Some (snd kv))). V x \<and> traverse_ok V \<Phi> ctv x)"
        using Vk JObj[of kv "snd kv"] m items[OF Vk] by auto
    qed
    show "result_ok \<Phi> (traverse ctv (JObj kvs) path busName fs)"
      using keysLoop_ok[where V = V and \<Phi> = \<Phi>, OF A1 A2 E bus_ok_new F]
      by (simp add: traverse.simps)
  qed
  then show ?case by simp
qed (simp_all add: traverse_ok_def traverse.simps result_ok_def bus_ok_new)

lemma length_numbers_of:
  "isNumericArray arr \<Longrightarrow> length (numbers_of arr) = length (array_items arr)"
proof -
  have L: "list_all typeof_number xs \<Longrightarrow>
      length (concat (map (\<lambda>item. case item of JNum n \<Rightarrow> [n] | _ \<Rightarrow> []) xs)) = length xs" for xs
  proof (induction xs)
    case (Cons x xs)
    then show ?case by (cases x) simp_all
  qed simp
  assume "isNumericArray arr"
  then have "list_all typeof_number (array_items arr)"
    by (simp add: isNumericArray_def split: if_splits)
  then show ?thesis unfolding numbers_of_def by (rule L)
qed

lemma numbers_of_nonempty: "isNumericArray arr \<Longrightarrow> numbers_of arr \<noteq> []"
  using length_numbers_of[of arr] by (auto simp: isNumericArray_def split: if_splits)

lemma parse_invariant:
  assumes Vobj: "\<And>kvs k v. V (JObj kvs) \<Longrightarrow> (k, v) \<in> set kvs \<Longrightarrow> V v"
    and Varr: "\<And>xs x. V (JArr xs) \<Longrightarrow> x \<in> set xs \<Longrightarrow> V x"
    and A1: "\<And>i n p v. V v \<Longrightarrow> isNumericArray (Some v) \<Longrightarrow>
          \<Phi> \<lparr>sig_id = i, sig_name = n, sig_path = p, data = numbers_of (Some v),
             time = commonTimeVector ds,
             stats = Some (calculateStats (numbers_of (Some v)))\<rparr>"
    and A2: "\<And>i n p v. V v \<Longrightarrow> isNumericArray (get_prop v ''data'') \<Longrightarrow>
          isNumericArray (get_prop v ''time'') \<Longrightarrow>
          \<Phi> \<lparr>sig_id = i, sig_name = n, sig_path = p, data = numbers_of (get_prop v ''data''),
             time = Some (numbers_of (get_prop v ''time'')),
             stats = Some (calculateStats (numbers_of (get_prop v ''data'')))\<rparr>"
    and V: "V jsonData"
    and P: "parseMatlabJson jsonData fileName = Inr ds"
  shows "bus_ok \<Phi> (rootBus ds) \<and> flat_ok \<Phi> (flatSignals ds)"
proof -
  define ctv where "ctv = commonTimeVector ds"
  obtain rb fs where t: "traverse ctv jsonData [] fileName Map.empty = (rb, fs)"
    by (cases "traverse ctv jsonData [] fileName Map.empty")
  have ds: "rootBus ds = rb" "flatSignals ds = fs"
    using P t unfolding parseMatlabJson_def ctv_def
    by (auto simp: Let_def split: if_splits prod.splits)
  have "traverse_ok V \<Phi> ctv jsonData
     \<and> (\<forall>x\<in>set (array_items (Some jsonData)). traverse_ok V \<Phi> ctv x)"
  proof (rule traverse_ok_all[where V = V and \<Phi> = \<Phi>])
    show "V v" if "V (JObj kvs)" "(k, v) \<in> set kvs" for kvs k v
      using that by (rule Vobj)
    show "V x" if "V (JArr xs)" "x \<in> set xs" for xs x
      using that by (rule Varr)
    show "\<Phi> \<lparr>sig_id = i, sig_name = n, sig_path = p, data = numbers_of (Some v), time = ctv,
             stats = Some (calculateStats (numbers_of (Some v)))\<rparr>"
      if "V v" "isNumericArray (Some v)" for i n p v
      unfolding ctv_def using that by (rule A1)
    show "\<Phi> \<lparr>sig_id = i, sig_name = n, sig_path = p, data = numbers_of (get_prop v ''data''),
             time = Some (numbers_of (get_prop v ''time'')),
             stats = Some (calculateStats (numbers_of (get_prop v ''data'')))\<rparr>"
      if "V v" "isNumericArray (get_prop v ''data'')" "isNumericArray (get_prop v ''time'')" for i n p v
      using that by (rule A2)
  qed
  then have "result_ok \<Phi> (traverse ctv jsonData [] fileName Map.empty)"
    using V by (simp add: traverse_ok_def flat_ok_def)
  then show ?thesis by (simp add: t ds result_ok_def)
qed

lemma example_parse: "parseMatlabJson example_json ''demo'' = Inr example_dataset"
  by (simp add: parseMatlabJson_def example_json_def example_dataset_def example_a_def example_c_def
      traverse.simps keysLoop.simps isNumericArray_def numbers_of_def Let_def
      push_signal_def set_own_def attach_def push_subBus_def)

lemma empty_parse: "parseMatlabJson (JObj []) nm = Inr \<lparr>rootBus = BusNode nm [] [] [],
      flatSignals = Map.empty, commonTimeVector = None\<rparr>"
  by (simp add: parseMatlabJson_def traverse.simps isNumericArray_def)

lemma cylinders_parse:
  "parseMatlabJson cylinders_json ''demo'' = Inr
     \<lparr>rootBus = BusNode ''demo'' [] []
        [BusNode ''cyl[0]'' [''cyl'', ''0'']
           [\<lparr>sig_id = ''cyl.0.p'', sig_name = ''p'', sig_path = [''cyl'', ''0'', ''p''],
              data = [Finite 1], time = None, stats = Some (calculateStats [Finite 1])\<rparr>] [],
         BusNode ''cyl[2]'' [''cyl'', ''2'']
           [\<lparr>sig_id = ''cyl.2.p'', sig_name = ''p'', sig_path = [''cyl'', ''2'', ''p''],
              data = [Finite 2], time = None, stats = Some (calculateStats [Finite 2])\<rparr>] []],
      flatSignals =
        [''cyl.0.p'' \<mapsto> \<lparr>sig_id = ''cyl.0.p'', sig_name = ''p'', sig_path = [''cyl'', ''0'', ''p''],
              data = [Finite 1], time = None, stats = Some (calculateStats [Finite 1])\<rparr>,
         ''cyl.2.p'' \<mapsto> \<lparr>sig_id = ''cyl.2.p'', sig_name = ''p'', sig_path = [''cyl'', ''2'', ''p''],
              data = [Finite 2], time = None, stats = Some (calculateStats [Finite 2])\<rparr>],
      commonTimeVector = None\<rparr>"
  by (simp add: parseMatlabJson_def cylinders_json_def traverse.simps keysLoop.simps forEach.simps
      isNumericArray_def numbers_of_def Let_def push_signal_def set_own_def attach_def
      push_subBus_def toString.simps digit_char_def)

lemma signals_push_signal [simp]: "signals (push_signal bus s) = signals bus @ [s]"
  by (simp add: push_signal_def)

lemma signals_attach [simp]: "signals (attach bus sub) = signals bus"
  by (simp add: attach_def push_subBus_def)

lemma signals_forEach [simp]:
  "signals (fst (forEach ctv key newPath items index bus fs)) = signals bus"
proof (induction items arbitrary: index bus fs)
  case (Cons item items)
  show ?case
    by (simp add: forEach_Cons[of _ _ _ item items] forEach_single Cons.IH split: prod.splits)
qed simp

lemma signals_keysLoop_single:
  "signals (fst (keysLoop ctv [(key, v)] path bus fs)) = signals bus @ entry_signals ctv path (key, v)"
  by (auto simp: keysLoop_single entry_signals_def Let_def split: prod.splits)

lemma signals_keysLoop:
  "signals (fst (keysLoop ctv entries path bus fs))
     = signals bus @ concat (map (entry_signals ctv path) entries)"
proof (induction entries arbitrary: bus fs)
  case (Cons kv entries)
  obtain key v where kv: "kv = (key, v)" by (cases kv)
  obtain bus' fs' where r: "keysLoop ctv [(key, v)] path bus fs = (bus', fs')"
    by (cases "keysLoop ctv [(key, v)] path bus fs")
  have "signals bus' = signals bus @ entry_signals ctv path (key, v)"
    using signals_keysLoop_single[of ctv key v path bus fs] r by simp
  then show ?case
    by (simp add: kv keysLoop_Cons[of _ key v entries] r Cons.IH)
qed simp

lemma isNumericArray_truthy: "isNumericArray a \<Longrightarrow> truthy a"
  by (cases a rule: truthy.cases) (simp_all add: isNumericArray_def)

lemma parse_object:
  assumes "parseMatlabJson (JObj kvs) fileName = Inr ds"
  shows "commonTimeVector ds = spec_commonTimeVector kvs"
    and "signals (rootBus ds) = concat (map (entry_signals (commonTimeVector ds) []) kvs)"
proof -
  show c: "commonTimeVector ds = spec_commonTimeVector kvs"
    using assms
    by (auto simp: parseMatlabJson_def spec_commonTimeVector_def Let_def isNumericArray_truthy
        split: prod.splits if_splits)
  have "rootBus ds = fst (traverse (commonTimeVector ds) (JObj kvs) [] fileName Map.empty)"
    using assms by (auto simp: parseMatlabJson_def Let_def split: prod.splits if_splits)
  then show "signals (rootBus ds) = concat (map (entry_signals (commonTimeVector ds) []) kvs)"
    by (simp add: traverse.simps signals_keysLoop)
qed

lemma quirk_parse: "parseMatlabJson (JObj quirk_entries) ''demo'' = Inr quirk_dataset"
  by (simp add: parseMatlabJson_def quirk_entries_def quirk_dataset_def quirk_t_def
      traverse.simps keysLoop.simps isNumericArray_def numbers_of_def Let_def
      push_signal_def set_own_def)




section \<open>Order, minimum and maximum of numbers\<close>

lemma num_le_refl: "a \<noteq> NaN \<Longrightarrow> num_le a a"
  by (cases a) simp_all

lemma num_le_trans: "num_le a b \<Longrightarrow> num_le b c \<Longrightarrow> num_le a c"
  by (cases a; cases b; cases c) simp_all

lemma num_le_total: "a \<noteq> NaN \<Longrightarrow> b \<noteq> NaN \<Longrightarrow> num_le a b \<or> num_le b a"
  by (cases a; cases b) auto

lemma num_le_not_NaN: "num_le a b \<Longrightarrow> a \<noteq> NaN \<and> b \<noteq> NaN"
  by (cases a; cases b) simp_all

lemma scan_min:
  assumes "NaN \<notin> set xs" and "acc \<noteq> NaN"
  shows "num_le (foldl (\<lambda>lowest x. if num_lt x lowest then x else lowest) acc xs) acc
    \<and> (\<forall>x\<in>set xs. num_le (foldl (\<lambda>lowest x. if num_lt x lowest then x else lowest) acc xs) x)
    \<and> foldl (\<lambda>lowest x. if num_lt x lowest then x else lowest) acc xs \<in> insert acc (set xs)"
  using assms
proof (induction xs arbitrary: acc)
  case Nil
  then show ?case by (simp add: num_le_refl)
next
  case (Cons x xs)
  let ?f = "\<lambda>lowest x. if num_lt x lowest then x else lowest"
  have x: "x \<noteq> NaN" and xs: "NaN \<notin> set xs" using Cons.prems(1) by auto
  show ?case
  proof (cases "num_lt x acc")
    case True
    then have le: "num_le x acc" by (simp add: num_lt_def)
    note ih = Cons.IH[OF xs x]
    have "num_le (foldl ?f x xs) acc" using ih le by (blast intro: num_le_trans)
    then show ?thesis using ih True by auto
  next
    case False
    then have le: "num_le acc x"
      using num_le_total[OF x Cons.prems(2)] by (auto simp: num_lt_def num_le_refl)
    note ih = Cons.IH[OF xs Cons.prems(2)]
    have "num_le (foldl ?f acc xs) x" using ih le by (blast intro: num_le_trans)
    then show ?thesis using ih False by auto
  qed
qed

lemma scan_max:
  assumes "NaN \<notin> set xs" and "acc \<noteq> NaN"
  shows "num_le acc (foldl (\<lambda>highest x. if num_lt highest x then x else highest) acc xs)
    \<and> (\<forall>x\<in>set xs. num_le x (foldl (\<lambda>highest x. if num_lt highest x then x else highest) acc xs))
    \<and> foldl (\<lambda>highest x. if num_lt highest x then x else highest) acc xs \<in> insert acc (set xs)"
  using assms
proof (induction xs arbitrary: acc)
  case Nil
  then show ?case by (simp add: num_le_refl)
next
  case (Cons x xs)
  let ?g = "\<lambda>highest x. if num_lt highest x then x else highest"
  have x: "x \<noteq> NaN" and xs: "NaN \<notin> set xs" using Cons.prems(1) by auto
  show ?case
  proof (cases "num_lt acc x")
    case True
    then have le: "num_le acc x" by (simp add: num_lt_def)
    note ih = Cons.IH[OF xs x]
    have "num_le acc (foldl ?g x xs)" using ih le by (blast intro: num_le_trans)
    then show ?thesis using ih True by auto
  next
    case False
    then have le: "num_le x acc"
      using num_le_total[OF x Cons.prems(2)] by (auto simp: num_lt_def num_le_refl)
    note ih = Cons.IH[OF xs Cons.prems(2)]
    have "num_le x (foldl ?g acc xs)" using ih le by (blast intro: num_le_trans)
    then show ?thesis using ih False by auto
  qed
qed

lemma Math_min_bounds:
  assumes "NaN \<notin> set d"
  shows "\<forall>x\<in>set d. num_le (Math_min d) x" and "Math_min d \<in> insert PosInfinity (set d)"
  using scan_min[OF assms, of PosInfinity] assms by (simp_all add: Math_min_def)

lemma Math_max_bounds:
  assumes "NaN \<notin> set d"
  shows "\<forall>x\<in>set d. num_le x (Math_max d)" and "Math_max d \<in> insert NegInfinity (set d)"
  using scan_max[OF assms, of NegInfinity] assms by (simp_all add: Math_max_def)

lemma mean_between:
  fixes xs :: "rat list"
  assumes "xs \<noteq> []" and "\<forall>x\<in>set xs. lo \<le> x \<and> x \<le> hi"
  shows "lo \<le> sum_list xs / of_nat (length xs)" and "sum_list xs / of_nat (length xs) \<le> hi"
proof -
  have "of_nat (length xs) * lo \<le> sum_list xs \<and> sum_list xs \<le> of_nat (length xs) * hi"
    using assms(2) by (induction xs) (auto simp: algebra_simps)
  moreover have "(0::rat) < of_nat (length xs)" using assms(1) by simp
  ultimately show "lo \<le> sum_list xs / of_nat (length xs)"
    and "sum_list xs / of_nat (length xs) \<le> hi"
    by (simp_all add: pos_le_divide_eq pos_divide_le_eq mult.commute)
qed

lemma stats_fields:
  assumes "d \<noteq> []"
  shows "min_val (calculateStats d) = Math_min d"
    and "max_val (calculateStats d) = Math_max d"
    and "mean (calculateStats d) = num_div_len (foldl (\<lambda>a b. num_add a b) (Finite 0) d) (length d)"
  using assms by (simp_all add: calculateStats_def Let_def)

lemma tenth_is_double: "round_double (3602879701896397 / 36028797018963968) = tenth"
  by (subst round_double_eval[where k = "-4"]) (simp_all add: tenth_def round_half_even_def Let_def)

lemma add_tenths:
  "num_add (Finite 0) tenth = tenth"
  "num_add tenth tenth = Finite (3602879701896397 / 18014398509481984)"
  "num_add (Finite (3602879701896397 / 18014398509481984)) tenth
      = Finite (1351079888211149 / 4503599627370496)"
proof -
  show "num_add (Finite 0) tenth = tenth"
    using tenth_is_double by (simp add: tenth_def)
  show "num_add tenth tenth = Finite (3602879701896397 / 18014398509481984)"
    apply (simp add: tenth_def)
    apply (subst round_double_eval[where k = "-3"])
      apply (simp_all add: round_half_even_def Let_def)
    done
  show "num_add (Finite (3602879701896397 / 18014398509481984)) tenth
      = Finite (1351079888211149 / 4503599627370496)"
    apply (simp add: tenth_def)
    apply (subst round_double_eval[where k = "-2"])
      apply (simp_all add: round_half_even_def Let_def)
    done
qed

lemma div_tenths:
  "round_double (1351079888211149 / 13510798882111488)
      = Finite (7205759403792795 / 72057594037927936)"
  by (subst round_double_eval[where k = "-4"]) (simp_all add: round_half_even_def Let_def)

lemma mean_tenths:
  "mean (calculateStats [tenth, tenth, tenth]) = Finite (7205759403792795 / 72057594037927936)"
  by (simp add: stats_fields(3) add_tenths div_tenths)

lemma max_tenths: "max_val (calculateStats [tenth, tenth, tenth]) = tenth"
  by (simp add: stats_fields(2) Math_max_def num_lt_def tenth_def)

lemma round_small:
  "round_double 1 = Finite 1" "round_double 2 = Finite 2"
  "round_double 3 = Finite 3" "round_double 6 = Finite 6"
proof -
  show "round_double 1 = Finite 1"
    by (subst round_double_eval[where k = 0]) (simp_all add: round_half_even_def Let_def)
  show "round_double 2 = Finite 2"
    by (subst round_double_eval[where k = 1]) (simp_all add: round_half_even_def Let_def)
  show "round_double 3 = Finite 3"
    by (subst round_double_eval[where k = 1]) (simp_all add: round_half_even_def Let_def)
  show "round_double 6 = Finite 6"
    by (subst round_double_eval[where k = 2]) (simp_all add: round_half_even_def Let_def)
qed

lemma round_four: "round_double 4 = Finite 4"
  by (subst round_double_eval[where k = 2]) (simp_all add: round_half_even_def Let_def)

lemma mean_rounded_inside:
  "mean (calculateStats [Finite 1, Finite 1, Finite 2])
     = Finite (6004799503160661 / 4503599627370496)"
proof -
  have "round_double (4 / 3) = Finite (6004799503160661 / 4503599627370496)"
    by (subst round_double_eval[where k = 0]) (simp_all add: round_half_even_def Let_def)
  then show ?thesis by (simp add: stats_fields(3) round_small round_four)
qed

section \<open>The sampling loop and the fields of a row\<close>

lemma between_multiples:
  fixes i j step :: nat
  assumes "i mod step = 0" and "i < j" and "j < i + step"
  shows "j mod step \<noteq> 0"
proof -
  obtain q where q: "i = step * q"
    using assms(1) by (auto simp: mod_eq_0_iff_dvd elim: dvdE)
  have "j = step * q + (j - i)" using assms(2) q by simp
  then have "j mod step = (step * q + (j - i)) mod step" by simp
  also have "\<dots> = (j - i) mod step" by simp
  also have "\<dots> = j - i" using assms(2,3) by simp
  finally show ?thesis using assms(2) by simp
qed

lemma stride_unfold:
  fixes i n step :: nat
  assumes "0 < step" and "i mod step = 0" and "i < n"
  shows "filter (\<lambda>j. j mod step = 0) [i..<n] = i # filter (\<lambda>j. j mod step = 0) [i + step..<n]"
proof -
  have skip: "filter (\<lambda>j. j mod step = 0) [Suc i..<m] = []" if "m \<le> i + step" for m
    using between_multiples[OF assms(2)] that by (auto simp: filter_empty_conv)
  have "filter (\<lambda>j. j mod step = 0) [Suc i..<n] = filter (\<lambda>j. j mod step = 0) [i + step..<n]"
  proof (cases "i + step \<le> n")
    case True
    have "Suc i \<le> i + step" using assms(1) by simp
    then have "[Suc i..<i + step + (n - (i + step))] = [Suc i..<i + step] @ [i + step..<i + step + (n - (i + step))]"
      by (rule upt_add_eq_append)
    then have "[Suc i..<n] = [Suc i..<i + step] @ [i + step..<n]"
      using True by simp
    then show ?thesis using skip[of "i + step"] by simp
  next
    case False
    then show ?thesis using skip[of n] by simp
  qed
  then show ?thesis using assms(2,3) by (simp add: upt_conv_Cons)
qed

lemma chartLoop_eq:
  assumes "0 < step" and "i mod step = 0"
  shows "chartLoop sigs base n step i acc
     = Some (acc @ map (chartPoint sigs base) (filter (\<lambda>j. j mod step = 0) [i..<n]))"
  using assms(2)
proof (induction "n - i" arbitrary: i acc rule: less_induct)
  case less
  show ?case
  proof (cases "i < n")
    case False
    then show ?thesis by (subst chartLoop.simps) simp
  next
    case True
    have m: "(i + step) mod step = 0" using less.prems by simp
    have d: "n - (i + step) < n - i" using True assms(1) by simp
    show ?thesis
      by (subst chartLoop.simps)
        (simp add: True less.hyps[OF d m] stride_unfold[OF assms(1) less.prems True])
  qed
qed

lemma point_other:
  assumes "k \<notin> sig_id ` set sigs"
  shows "foldl (\<lambda>point sig.
           if i < length (data sig) then set_own point (sig_id sig) (Num (data sig ! i))
           else point) p sigs k = p k"
  using assms by (induction sigs arbitrary: p) (auto simp: set_own_def)

lemma point_signal:
  assumes "distinct (map sig_id sigs)" and "s \<in> set sigs" and "sig_id s \<noteq> ''__proto__''"
  shows "foldl (\<lambda>point sig.
           if i < length (data sig) then set_own point (sig_id sig) (Num (data sig ! i))
           else point) p sigs (sig_id s)
     = (if i < length (data s) then Some (Num (data s ! i)) else p (sig_id s))"
  using assms
proof (induction sigs arbitrary: p)
  case Nil
  then show ?case by simp
next
  case (Cons a sigs)
  show ?case
  proof (cases "s = a")
    case True
    have "sig_id a \<notin> sig_id ` set sigs" using Cons.prems(1) by auto
    then show ?thesis using True Cons.prems(3) by (simp add: point_other set_own_def)
  next
    case False
    then have s: "s \<in> set sigs" using Cons.prems(2) by simp
    have "sig_id s \<in> sig_id ` set sigs" using s by (rule imageI)
    moreover have "sig_id a \<notin> sig_id ` set sigs" using Cons.prems(1) by simp
    ultimately have ne: "sig_id s \<noteq> sig_id a" by metis
    show ?thesis
      using Cons.IH[OF _ s Cons.prems(3)] Cons.prems(1) ne by (simp add: set_own_def)
  qed
qed

lemma chartPoint_spec:
  assumes "sigs \<noteq> []" and "distinct (map sig_id sigs)"
    and "\<forall>s\<in>set sigs. sig_id s \<notin> {''index'', ''time'', ''__proto__''}"
  shows "row_spec sigs i (chartPoint sigs (sigs ! 0) i)"
proof -
  have hd: "sigs ! 0 = hd sigs" using assms(1) by (simp add: hd_conv_nth)
  have r: "''index'' \<notin> sig_id ` set sigs" "''time'' \<notin> sig_id ` set sigs"
    using assms(3) by auto
  have sg: "chartPoint sigs (sigs ! 0) i (sig_id s)
        = (if i < length (data s) then Some (Num (data s ! i)) else None)"
    if "s \<in> set sigs" for s
  proof -
    have "sig_id s \<noteq> ''__proto__''" "sig_id s \<noteq> ''index''" "sig_id s \<noteq> ''time''"
      using assms(3) that by auto
    then show ?thesis
      unfolding chartPoint_def Let_def by (subst point_signal[OF assms(2) that]) simp_all
  qed
  show ?thesis
    unfolding row_spec_def
    using r sg by (simp add: chartPoint_def Let_def point_other hd)
qed

lemma chartData_unequal_lengths:
  "chartData [example_a, example_short]
     = Some (map (chartPoint [example_a, example_short] example_a) [0, 1, 2])"
  "map (\<lambda>i. chartPoint [example_a, example_short] example_a i ''s'') [0, 1, 2]
     = [Some (Num (Finite 7)), Some (Num (Finite 8)), None]"
  "map (\<lambda>i. chartPoint [example_a, example_short] example_a i ''a'') [0, 1, 2]
     = [Some (Num (Finite 1)), Some (Num (Finite 2)), Some (Num (Finite 3))]"
  "map (\<lambda>i. chartPoint [example_a, example_short] example_a i ''time'') [0, 1, 2]
     = [Some (Num (Finite 0)), Some (Num (Finite 1)), Some (Num (Finite 2))]"
proof -
  have len: "length (data example_a) = 3" by (simp add: example_a_def)
  have "chartData [example_a, example_short]
      = chartLoop [example_a, example_short] example_a 3 1 0 []"
    by (simp add: chartData_def Let_def len)
  also have "\<dots> = Some (map (chartPoint [example_a, example_short] example_a)
      (filter (\<lambda>j. j mod 1 = 0) [0..<3]))"
    by (subst chartLoop_eq) simp_all
  also have "[0..<3] = [0, 1, 2::nat]" by (simp add: upt_rec)
  finally show "chartData [example_a, example_short]
     = Some (map (chartPoint [example_a, example_short] example_a) [0, 1, 2])" by simp
qed (simp_all add: chartPoint_def example_a_def example_short_def set_own_def index_read_def)

lemma chartData_collide:
  "chartData [collide] = Some [[''index'' \<mapsto> Num (Finite 5), ''time'' \<mapsto> Num (Finite 0)]]"
proof -
  have p: "chartPoint [collide] collide 0 = [''index'' \<mapsto> Num (Finite 5), ''time'' \<mapsto> Num (Finite 0)]"
    by (rule ext) (simp add: chartPoint_def collide_def set_own_def num_of_nat_def)
  have len: "length (data collide) = 1" by (simp add: collide_def)
  have "chartData [collide] = chartLoop [collide] collide 1 1 0 []"
    by (simp add: chartData_def Let_def len)
  also have "\<dots> = Some (map (chartPoint [collide] collide) (filter (\<lambda>j. j mod 1 = 0) [0..<1]))"
    by (subst chartLoop_eq) simp_all
  finally show ?thesis by (simp add: p)
qed

lemma stride_examples:
  "Math_ceil_div 9000 3000 = 3" "Math_ceil_div 3001 3000 = 2"
proof -
  have "\<lceil>3001 / 3000 :: rat\<rceil> = 2" by (simp add: ceiling_eq_iff)
  then show "Math_ceil_div 3001 3000 = 2" by (simp add: Math_ceil_div_def)
qed (simp add: Math_ceil_div_def)

section \<open>Tree filter: claims C5, C6, C7\<close>

lemma concat_singletons: "(\<And>e. e \<in> set xs \<Longrightarrow> g e = [e]) \<Longrightarrow> concat (map g xs) = xs"
  by (induction xs) auto

text \<open>
  A bus whose name and the term have the same lower-cased form is returned whole, whatever
  the characters are and whatever \<open>toLowerCase\<close> does to them.
\<close>

lemma startsWith_self: "startsWith s s"
  by (induction s) simp_all

lemma includes_str_self: "includes_str s s"
  by (cases s) (simp_all add: startsWith_self)

lemma filterBusTree_same_fold:
  "lc (bus_name node) = lc term \<Longrightarrow> filterBusTree lc node term = Some node"
  by (cases node) (simp add: filterBusTree.simps includes_str_self)



text \<open>
  Claim C7, as the code has it.  \<open>filterBusTree\<close> tests \<open>!term\<close>, which holds of the empty
  string only: with the empty term the bus is returned unchanged.  A term of white space is
  a non-empty string and is searched for like any other; it is the caller that trims the
  term before it decides whether to filter at all.
\<close>

theorem filterBusTree_empty_term: "filterBusTree lc node [] = Some node"
  by (cases node) (simp add: filterBusTree.simps)

theorem filterBusTree_empty_term_witness:
  "filterBusTree ascii_lower (BusNode ''a'' [] [] []) [] = Some (BusNode ''a'' [] [] [])"
  using filterBusTree_empty_term[of ascii_lower "BusNode ''a'' [] [] []"] by simp

text \<open>
  Claim C7 as stated fails: the term of one space is blank, and the bus named \<open>a\<close> without
  signals is not returned for it.
\<close>

theorem filterBusTree_blank_counterexample:
  "blank '' ''
   \<and> filterBusTree ascii_lower (BusNode ''a'' [] [] []) '' '' \<noteq> Some (BusNode ''a'' [] [] [])"
  by (simp add: blank_def isWhitespace_def filterBusTree.simps ascii_lower_def ascii_lower_char_def)

text \<open>
  Claim C6.  Whenever \<open>filterBusTree\<close> yields a bus for a tree and a term, filtering that bus
  with the same term yields it again; this holds for every lower-casing function \<open>lc\<close> in the
  place of the built-in \<open>toLowerCase\<close>.
\<close>

theorem filterBusTree_idempotent:
  "filterBusTree lc tree term = Some r \<Longrightarrow> filterBusTree lc r term = Some r"
proof (induction lc tree "term" arbitrary: r rule: filterBusTree.induct)
  case (1 lc nm pth sigs subs "term")
  let ?node = "BusNode nm pth sigs subs"
  let ?P = "\<lambda>s. includes_str (lc (sig_name s)) (lc term)"
  let ?g = "\<lambda>sub. case filterBusTree lc sub term of None \<Rightarrow> [] | Some res \<Rightarrow> [res]"
  show ?case
  proof (cases "term = [] \<or> includes_str (lc nm) (lc term)")
    case True
    then have "r = ?node" using "1.prems" by (auto simp: filterBusTree.simps Let_def split: if_splits)
    then show ?thesis using "1.prems" by simp
  next
    case False
    define ms where "ms = filter ?P sigs"
    define mb where "mb = concat (map ?g subs)"
    have r: "r = BusNode nm pth ms mb" and ne: "ms \<noteq> [] \<or> mb \<noteq> []"
      using "1.prems" False
      by (auto simp: filterBusTree.simps Let_def ms_def mb_def split: if_splits)
    have gfix: "?g e = [e]" if "e \<in> set mb" for e
    proof -
      from that obtain sub where sub: "sub \<in> set subs" and e: "e \<in> set (?g sub)"
        by (auto simp: mb_def)
      then have fe: "filterBusTree lc sub term = Some e" by (auto split: option.splits)
      have "filterBusTree lc e term = Some e"
        using "1.IH"[OF _ refl _ refl sub fe] False by simp
      then show ?thesis by simp
    qed
    have "concat (map ?g mb) = mb" using gfix by (rule concat_singletons)
    moreover have "filter ?P ms = ms" by (simp add: ms_def)
    ultimately show ?thesis using False ne
      by (simp add: r filterBusTree.simps Let_def)
  qed
qed

theorem filterBusTree_idempotent_witness:
  "filterBusTree ascii_lower (rootBus example_dataset) ''C''
     = Some (BusNode ''demo'' [] [] [BusNode ''b'' [''b''] [example_c] []])
   \<and> filterBusTree ascii_lower (BusNode ''demo'' [] [] [BusNode ''b'' [''b''] [example_c] []]) ''C''
     = Some (BusNode ''demo'' [] [] [BusNode ''b'' [''b''] [example_c] []])"
proof -
  have h: "filterBusTree ascii_lower (rootBus example_dataset) ''C''
     = Some (BusNode ''demo'' [] [] [BusNode ''b'' [''b''] [example_c] []])"
    by (simp add: example_dataset_def example_a_def example_c_def filterBusTree.simps
        ascii_lower_def ascii_lower_char_def Let_def)
  show ?thesis using h filterBusTree_idempotent[OF h] by simp
qed

section \<open>Tree normalizer: claims C3 and C10\<close>

text \<open>
  Claim C10.  Every signal of a dataset produced by \<open>parseMatlabJson\<close>, reached through the
  tree or through the flat map, has at least one sample and carries the statistics of its
  data; so \<open>calculateStats\<close> never takes its branch for the empty sequence on behalf of the
  normalizer.
\<close>

theorem emitted_signals_nonempty_with_stats:
  assumes "parseMatlabJson jsonData fileName = Inr ds" and "s \<in> signals_of ds"
  shows "length (data s) \<ge> 1 \<and> stats s = Some (calculateStats (data s))"
proof -
  let ?\<Phi> = "\<lambda>s. length (data s) \<ge> 1 \<and> stats s = Some (calculateStats (data s))"
  have "bus_ok ?\<Phi> (rootBus ds) \<and> flat_ok ?\<Phi> (flatSignals ds)"
    by (rule parse_invariant[where V = "\<lambda>_. True", OF _ _ _ _ _ assms(1)])
       (simp_all add: numbers_of_nonempty Suc_le_eq)
  then show ?thesis using assms(2) by (auto simp: signals_of_def bus_ok_def flat_ok_def)
qed

theorem emitted_signals_nonempty_with_stats_witness:
  "parseMatlabJson example_json ''demo'' = Inr example_dataset
   \<and> example_c \<in> signals_of example_dataset
   \<and> length (data example_c) \<ge> 1
   \<and> stats example_c = Some (calculateStats (data example_c))"
proof -
  have m: "example_c \<in> signals_of example_dataset"
    by (simp add: signals_of_def example_dataset_def)
  show ?thesis
    using emitted_signals_nonempty_with_stats[OF example_parse m] example_parse m by simp
qed

text \<open>
  Claim C3.  Every bus found in a \<open>subBuses\<close> list anywhere in the tree produced by
  \<open>parseMatlabJson\<close> has at least one signal or at least one sub-bus.
\<close>

theorem attached_buses_nonempty:
  assumes "parseMatlabJson jsonData fileName = Inr ds" and "b \<in> set (descendants (rootBus ds))"
  shows "length (signals b) \<ge> 1 \<or> length (subBuses b) \<ge> 1"
proof -
  have "bus_ok (\<lambda>_. True) (rootBus ds) \<and> flat_ok (\<lambda>_. True) (flatSignals ds)"
    by (rule parse_invariant[where V = "\<lambda>_. True", OF _ _ _ _ _ assms(1)]) simp_all
  then have "signals b \<noteq> [] \<or> subBuses b \<noteq> []" using assms(2) by (auto simp: bus_ok_def)
  then show ?thesis by (cases "signals b"; cases "subBuses b") simp_all
qed

theorem attached_buses_nonempty_witness:
  "parseMatlabJson example_json ''demo'' = Inr example_dataset
   \<and> BusNode ''b'' [''b''] [example_c] [] \<in> set (descendants (rootBus example_dataset))
   \<and> (length (signals (BusNode ''b'' [''b''] [example_c] [])) \<ge> 1
        \<or> length (subBuses (BusNode ''b'' [''b''] [example_c] [])) \<ge> 1)"
proof -
  have m: "BusNode ''b'' [''b''] [example_c] [] \<in> set (descendants (rootBus example_dataset))"
    by (simp add: example_dataset_def)
  show ?thesis
    using attached_buses_nonempty[OF example_parse m] example_parse m by simp
qed

section \<open>Tree normalizer: claims C1, C2, C9\<close>

text \<open>
  Claim C1.  For a root object (its keys pairwise distinct, as in any object):
  \<open>commonTimeVector\<close> is the value of the first of \<open>time\<close>, \<open>tout\<close>, \<open>t\<close> that the root has
  with a numeric sequence as value, and depends on nothing else; a root key \<open>time\<close> or
  \<open>tout\<close> with a numeric sequence gives no signal of the root bus; a root key \<open>t\<close> with a
  numeric sequence gives the signal with id \<open>t\<close>, that sequence as data and the common time
  vector as time.
\<close>

theorem root_time_vector_detection:
  assumes "distinct (map fst kvs)" and "parseMatlabJson (JObj kvs) fileName = Inr ds"
  shows "commonTimeVector ds = spec_commonTimeVector kvs
    \<and> (\<forall>key\<in>{''time'', ''tout''}. isNumericArray (map_of kvs key)
          \<longrightarrow> (\<forall>s\<in>set (signals (rootBus ds)). sig_name s \<noteq> key))
    \<and> (isNumericArray (map_of kvs ''t'')
          \<longrightarrow> (\<exists>s\<in>set (signals (rootBus ds)). sig_name s = ''t'' \<and> sig_id s = ''t''
                \<and> data s = numbers_of (map_of kvs ''t'') \<and> time s = commonTimeVector ds))"
proof (intro conjI)
  note po = parse_object[OF assms(2)]
  show "commonTimeVector ds = spec_commonTimeVector kvs" by (rule po(1))
  show "\<forall>key\<in>{''time'', ''tout''}. isNumericArray (map_of kvs key)
          \<longrightarrow> (\<forall>s\<in>set (signals (rootBus ds)). sig_name s \<noteq> key)"
  proof (intro ballI impI)
    fix key s
    assume key: "key \<in> {''time'', ''tout''}" and num: "isNumericArray (map_of kvs key)"
      and "s \<in> set (signals (rootBus ds))"
    then obtain kv where kv: "kv \<in> set kvs"
      and s: "s \<in> set (entry_signals (commonTimeVector ds) [] kv)"
      unfolding po(2) by auto
    have n: "sig_name s = fst kv" using s by (auto simp: entry_signals_def split: if_splits)
    show "sig_name s \<noteq> key"
    proof
      assume e: "sig_name s = key"
      have "(fst kv, snd kv) \<in> set kvs" using kv by simp
      then have "map_of kvs (fst kv) = Some (snd kv)"
        using assms(1) by (rule map_of_is_SomeI[rotated])
      then show False using key num s n e
        by (auto simp: entry_signals_def split: if_splits)
    qed
  qed
  show "isNumericArray (map_of kvs ''t'')
          \<longrightarrow> (\<exists>s\<in>set (signals (rootBus ds)). sig_name s = ''t'' \<and> sig_id s = ''t''
                \<and> data s = numbers_of (map_of kvs ''t'') \<and> time s = commonTimeVector ds)"
  proof
    assume num: "isNumericArray (map_of kvs ''t'')"
    obtain v where v: "map_of kvs ''t'' = Some v"
      using num by (cases "map_of kvs ''t''") (simp_all add: isNumericArray_def)
    then have m: "(''t'', v) \<in> set kvs" by (rule map_of_SomeD)
    let ?s = "\<lparr>sig_id = ''t'', sig_name = ''t'', sig_path = [''t''],
                data = numbers_of (Some v), time = commonTimeVector ds,
                stats = Some (calculateStats (numbers_of (Some v)))\<rparr>"
    have "entry_signals (commonTimeVector ds) [] (''t'', v) = [?s]"
      using num v by (simp add: entry_signals_def)
    then have "?s \<in> set (signals (rootBus ds))"
      unfolding po(2) using m by force
    then show "\<exists>s\<in>set (signals (rootBus ds)). sig_name s = ''t'' \<and> sig_id s = ''t''
                \<and> data s = numbers_of (map_of kvs ''t'') \<and> time s = commonTimeVector ds"
      using v by (intro bexI[of _ ?s]) simp_all
  qed
qed

theorem root_time_vector_detection_witness:
  "distinct (map fst quirk_entries)
   \<and> parseMatlabJson (JObj quirk_entries) ''demo'' = Inr quirk_dataset
   \<and> commonTimeVector quirk_dataset = spec_commonTimeVector quirk_entries
   \<and> spec_commonTimeVector quirk_entries = Some [Finite 0, Finite 1]
   \<and> isNumericArray (map_of quirk_entries ''time'')
   \<and> ''time'' \<notin> set (map sig_name (signals (rootBus quirk_dataset)))
   \<and> isNumericArray (map_of quirk_entries ''t'')
   \<and> (\<exists>s\<in>set (signals (rootBus quirk_dataset)). sig_name s = ''t'' \<and> sig_id s = ''t''
         \<and> data s = numbers_of (map_of quirk_entries ''t'')
         \<and> time s = commonTimeVector quirk_dataset)"
proof -
  have d: "distinct (map fst quirk_entries)" by (simp add: quirk_entries_def)
  have n: "isNumericArray (map_of quirk_entries ''time'')" "isNumericArray (map_of quirk_entries ''t'')"
    by (simp_all add: quirk_entries_def isNumericArray_def)
  have c: "spec_commonTimeVector quirk_entries = Some [Finite 0, Finite 1]"
    by (simp add: spec_commonTimeVector_def quirk_entries_def isNumericArray_def numbers_of_def)
  note T = root_time_vector_detection[OF d quirk_parse]
  have e: "commonTimeVector quirk_dataset = spec_commonTimeVector quirk_entries"
    using T by blast
  have a: "''time'' \<notin> set (map sig_name (signals (rootBus quirk_dataset)))"
    using T n(1) by auto
  have b: "\<exists>s\<in>set (signals (rootBus quirk_dataset)). sig_name s = ''t'' \<and> sig_id s = ''t''
         \<and> data s = numbers_of (map_of quirk_entries ''t'')
         \<and> time s = commonTimeVector quirk_dataset"
    using T n(2) by blast
  show ?thesis
    by (intro conjI) (fact d, fact quirk_parse, fact e, fact c, fact n(1), fact a, fact n(2), fact b)
qed




text \<open>
  The normalizer is total, and away from \<open>null\<close> it returns: for every input value that
  is an object, an array, a string, a number or a boolean, and every name,
  \<open>parseMatlabJson\<close> yields a dataset; for the empty object this is the root bus without
  signals and sub-buses, with the empty flat map and no common time vector.
\<close>

lemma parseMatlabJson_returns:
  "(jsonData \<noteq> JNull \<longrightarrow> (\<exists>ds. parseMatlabJson jsonData fileName = Inr ds))
   \<and> parseMatlabJson (JObj []) fileName
       = Inr \<lparr>rootBus = BusNode fileName [] [] [], flatSignals = Map.empty,
               commonTimeVector = None\<rparr>"
  by (auto simp: parseMatlabJson_def Let_def traverse.simps isNumericArray_def split: prod.splits)

lemma parseMatlabJson_returns_example:
  "example_json \<noteq> JNull \<and> (\<exists>ds. parseMatlabJson example_json ''demo'' = Inr ds)"
  using parseMatlabJson_returns[of example_json "''demo''"] by (simp add: example_json_def)

text \<open>
  Claim C9.  For every input value and name \<open>parseMatlabJson\<close> should return a dataset, an
  empty tree in the worst case.  The code does not at the input \<open>null\<close>, the value of the
  JSON document \<open>null\<close>: the read of \<open>jsonData.time\<close> raises a \<open>TypeError\<close> before the
  traversal, whose first test would have answered \<open>null\<close> with the empty bus, is entered.
\<close>

theorem parseMatlabJson_null_raises:
  "parseMatlabJson JNull ''demo'' = Inl TypeError"
  by (simp add: parseMatlabJson_def)

section \<open>Signal statistics: claim C8\<close>

text \<open>
  Claim C8, as the code has it.  For the empty sequence all four statistics are \<open>0\<close>.
  For a non-empty sequence without NaN, \<open>min\<close> is below and \<open>max\<close> above every element, so
  \<open>min \<le> max\<close>.  For a non-empty sequence of binary64 values whose sum the additions
  compute exactly, \<open>min \<le> mean \<le> max\<close>, whether the division rounds or not.
\<close>

theorem stats_bounds:
  "calculateStats [] = \<lparr>min_val = Finite 0, max_val = Finite 0, mean = Finite 0, stdDev = Finite 0\<rparr>
   \<and> (d \<noteq> [] \<and> NaN \<notin> set d \<longrightarrow>
        (\<forall>x\<in>set d. num_le (min_val (calculateStats d)) x \<and> num_le x (max_val (calculateStats d)))
        \<and> num_le (min_val (calculateStats d)) (max_val (calculateStats d)))
   \<and> (d \<noteq> [] \<and> list_all is_double d
        \<and> foldl (\<lambda>a b. num_add a b) (Finite 0) d = Finite (sum_list (map rat_of d)) \<longrightarrow>
        num_le (min_val (calculateStats d)) (mean (calculateStats d))
        \<and> num_le (mean (calculateStats d)) (max_val (calculateStats d)))"
proof (intro conjI impI)
  show "calculateStats [] = \<lparr>min_val = Finite 0, max_val = Finite 0, mean = Finite 0, stdDev = Finite 0\<rparr>"
    by (simp add: calculateStats_def)
next
  assume a: "d \<noteq> [] \<and> NaN \<notin> set d"
  then have b: "\<forall>x\<in>set d. num_le (Math_min d) x \<and> num_le x (Math_max d)"
    using Math_min_bounds(1)[of d] Math_max_bounds(1)[of d] by simp
  then show "\<forall>x\<in>set d. num_le (min_val (calculateStats d)) x \<and> num_le x (max_val (calculateStats d))"
    using a by (simp add: stats_fields)
  obtain x where "x \<in> set d" using a by (cases d) auto
  then have "num_le (Math_min d) x" "num_le x (Math_max d)" using b by simp_all
  then show "num_le (min_val (calculateStats d)) (max_val (calculateStats d))"
    using a by (simp add: stats_fields num_le_trans[of _ x])
next
  assume a: "d \<noteq> [] \<and> list_all is_double d
        \<and> foldl (\<lambda>a b. num_add a b) (Finite 0) d = Finite (sum_list (map rat_of d))"
  have dbl: "x = Finite (rat_of x) \<and> round_double (rat_of x) = Finite (rat_of x)"
    if "x \<in> set d" for x
  proof -
    have "is_double x" using a that by (simp add: list_all_iff)
    then show ?thesis by (cases x) simp_all
  qed
  have nn: "NaN \<notin> set d" using a by (auto simp: list_all_iff)
  obtain y where y: "y \<in> set d" using a by (cases d) auto
  have yf: "y = Finite (rat_of y)" using dbl[OF y] by simp
  have "Math_min d \<noteq> PosInfinity"
  proof
    assume e: "Math_min d = PosInfinity"
    have "num_le (Math_min d) y" using Math_min_bounds(1)[OF nn] y by simp
    then show False using e yf by (cases y) simp_all
  qed
  then have "Math_min d \<in> set d" using Math_min_bounds(2)[OF nn] by simp
  then obtain lo where lo: "Math_min d = Finite lo" and dlo: "round_double lo = Finite lo"
    using dbl by metis
  have "Math_max d \<noteq> NegInfinity"
  proof
    assume e: "Math_max d = NegInfinity"
    have "num_le y (Math_max d)" using Math_max_bounds(1)[OF nn] y by simp
    then show False using e yf by (cases y) simp_all
  qed
  then have "Math_max d \<in> set d" using Math_max_bounds(2)[OF nn] by simp
  then obtain hi where hi: "Math_max d = Finite hi" and dhi: "round_double hi = Finite hi"
    using dbl by metis
  have bd: "\<forall>q\<in>set (map rat_of d). lo \<le> q \<and> q \<le> hi"
  proof
    fix q assume "q \<in> set (map rat_of d)"
    then obtain x where x: "x \<in> set d" "q = rat_of x" by auto
    have xf: "x = Finite q" using dbl[OF x(1)] x(2) by simp
    have "num_le (Math_min d) x" "num_le x (Math_max d)"
      using Math_min_bounds(1)[OF nn] Math_max_bounds(1)[OF nn] x(1) by simp_all
    then have "num_le (Finite lo) (Finite q)" "num_le (Finite q) (Finite hi)"
      unfolding lo hi xf[symmetric] by simp_all
    then show "lo \<le> q \<and> q \<le> hi" by simp
  qed
  have ne: "map rat_of d \<noteq> []" using a by simp
  let ?m = "sum_list (map rat_of d) / of_nat (length d)"
  have m: "lo \<le> ?m" "?m \<le> hi" using mean_between[OF ne bd] by simp_all
  have mean: "mean (calculateStats d) = round_double ?m"
    using a by (simp add: stats_fields(3))
  show "num_le (min_val (calculateStats d)) (mean (calculateStats d))"
    using a round_double_lower[OF dlo m(1)] by (simp add: stats_fields(1) lo mean)
  show "num_le (mean (calculateStats d)) (max_val (calculateStats d))"
    using a round_double_upper[OF dhi m(2)] by (simp add: stats_fields(2) hi mean)
qed

theorem stats_bounds_witness:
  "[Finite 1, Finite 1, Finite 2] \<noteq> [] \<and> NaN \<notin> set [Finite 1, Finite 1, Finite 2]
   \<and> list_all is_double [Finite 1, Finite 1, Finite 2]
   \<and> foldl (\<lambda>a b. num_add a b) (Finite 0) [Finite 1, Finite 1, Finite 2]
        = Finite (sum_list (map rat_of [Finite 1, Finite 1, Finite 2]))
   \<and> num_le (min_val (calculateStats [Finite 1, Finite 1, Finite 2]))
        (mean (calculateStats [Finite 1, Finite 1, Finite 2]))
   \<and> num_le (mean (calculateStats [Finite 1, Finite 1, Finite 2]))
        (max_val (calculateStats [Finite 1, Finite 1, Finite 2]))
   \<and> num_le (min_val (calculateStats [Finite 1, Finite 1, Finite 2]))
        (max_val (calculateStats [Finite 1, Finite 1, Finite 2]))"
proof -
  have f: "list_all is_double [Finite 1, Finite 1, Finite 2]" by (simp add: round_small)
  have s: "foldl (\<lambda>a b. num_add a b) (Finite 0) [Finite 1, Finite 1, Finite 2]
        = Finite (sum_list (map rat_of [Finite 1, Finite 1, Finite 2]))"
    by (simp add: round_small round_four)
  have n: "NaN \<notin> set [Finite 1, Finite 1, Finite 2]" by simp
  show ?thesis
    using stats_bounds[of "[Finite 1, Finite 1, Finite 2]"] f s n by blast
qed

text \<open>
  Claim C8 as stated fails: for \<open>[0.1, 0.1, 0.1]\<close> the sum rounds up to
  \<open>0.30000000000000004\<close> and the mean to \<open>0.10000000000000002\<close>, above the maximum \<open>0.1\<close>.
\<close>

theorem stats_mean_counterexample:
  "round_double (3602879701896397 / 36028797018963968) = tenth
   \<and> mean (calculateStats [tenth, tenth, tenth]) = Finite (7205759403792795 / 72057594037927936)
   \<and> max_val (calculateStats [tenth, tenth, tenth]) = tenth
   \<and> \<not> num_le (mean (calculateStats [tenth, tenth, tenth]))
           (max_val (calculateStats [tenth, tenth, tenth]))"
  using tenth_is_double by (simp add: mean_tenths max_tenths) (simp add: tenth_def)

section \<open>Chart data projection: claim C4\<close>

text \<open>
  Claim C4, as the code has it.  For every non-empty sequence of signals whose ids are
  pairwise distinct and none of which is \<open>index\<close>, \<open>time\<close> or \<open>__proto__\<close>, the loop
  terminates and the rows it returns are those of the reference definition \<open>chart_spec\<close>.
\<close>

theorem chartData_projection:
  assumes "sigs \<noteq> []" and "distinct (map sig_id sigs)"
    and "\<forall>s\<in>set sigs. sig_id s \<notin> {''index'', ''time'', ''__proto__''}"
  shows "\<exists>rows. chartData sigs = Some rows \<and> chart_spec sigs rows"
proof -
  define n where "n = length (data (hd sigs))"
  define step where "step = (if n > 3000 then nat \<lceil>(of_nat n :: rat) / 3000\<rceil> else 1)"
  have hd: "sigs ! 0 = hd sigs" using assms(1) by (simp add: hd_conv_nth)
  have pos: "0 < step"
  proof (cases "n > 3000")
    case True
    then have "(0::rat) < of_nat n / 3000" by simp
    then show ?thesis using True by (simp add: step_def)
  qed (simp add: step_def)
  let ?rows = "map (chartPoint sigs (sigs ! 0)) (filter (\<lambda>j. j mod step = 0) [0..<n])"
  have "chartData sigs = chartLoop sigs (sigs ! 0) n step 0 []"
    using assms(1) by (simp add: chartData_def Let_def n_def step_def hd Math_ceil_div_def)
  then have c: "chartData sigs = Some ?rows"
    by (simp add: chartLoop_eq[OF pos])
  have "list_all2 (row_spec sigs) (filter (\<lambda>j. j mod step = 0) [0..<n]) ?rows"
    by (simp add: list_all2_map2 list.rel_refl_strong chartPoint_spec[OF assms])
  then have "chart_spec sigs ?rows"
    by (simp only: chart_spec_def Let_def n_def step_def)
  then show ?thesis using c by blast
qed

theorem chartData_projection_witness:
  "[example_a, example_short] \<noteq> []
   \<and> distinct (map sig_id [example_a, example_short])
   \<and> set (map sig_id [example_a, example_short]) \<inter> {''index'', ''time'', ''__proto__''} = {}
   \<and> (\<exists>rows. chartData [example_a, example_short] = Some rows
          \<and> chart_spec [example_a, example_short] rows)"
proof -
  have d: "distinct (map sig_id [example_a, example_short])"
    by (simp add: example_a_def example_short_def)
  have r: "\<forall>s\<in>set [example_a, example_short]. sig_id s \<notin> {''index'', ''time'', ''__proto__''}"
    by (simp add: example_a_def example_short_def)
  have n: "[example_a, example_short] \<noteq> []" by simp
  have i: "set (map sig_id [example_a, example_short]) \<inter> {''index'', ''time'', ''__proto__''} = {}"
    by (simp add: example_a_def example_short_def)
  show ?thesis using chartData_projection[OF n d r] d i by simp
qed

text \<open>
  Claim C4 as stated fails: a signal whose id is \<open>index\<close> overwrites the \<open>index\<close> field of
  every row with its sample, so the row at index \<open>0\<close> carries \<open>5\<close> there.
\<close>

theorem chartData_reserved_id_counterexample:
  "chartData [collide] = Some [[''index'' \<mapsto> Num (Finite 5), ''time'' \<mapsto> Num (Finite 0)]]
   \<and> \<not> chart_spec [collide] [[''index'' \<mapsto> Num (Finite 5), ''time'' \<mapsto> Num (Finite 0)]]"
  using chartData_collide
  by (simp add: chart_spec_def row_spec_def collide_def num_of_nat_def)

end
